theory Spec2Isabelle
  imports Main "HOL-Library.Word"
begin

section \<open>Global alignment of letter sequences (align/nw\_letters.go)\<close>

text \<open>
  The embedding follows \<^verbatim>\<open>func (a NW) alignLetters\<close>, line by line. Go's \<^verbatim>\<open>int\<close>
  scores are 64-bit words: addition and subtraction wrap, comparison is signed. Positions
  in the sequences and in the flat table are natural numbers; they are lengths, and
  products of lengths, of slices held in memory. A run-time panic is a value of the type
  \<open>error\<close>, and a loop that does not return is the value \<open>None\<close>. The table drawn on
  standard output when \<^verbatim>\<open>debugNeedle\<close> is set (lines 116 to 118) changes no value and is
  left out.
\<close>

subsection \<open>Data\<close>

type_synonym Letter = "8 word"
type_synonym Letters = "Letter list"
type_synonym score = "64 word"
type_synonym NW = "score list list"

text \<open>
  The package \<^verbatim>\<open>alphabet\<close> is not part of the sources at hand. Of an alphabet the
  function uses the table returned by \<^verbatim>\<open>LetterIndex()\<close>, read at a byte; a negative entry
  means that the letter is not in the alphabet (the function tests \<^verbatim>\<open>rVal < 0\<close>). The
  number of letters \<open>Len\<close> is kept beside it; \<^verbatim>\<open>alignLetters\<close> never reads it.
\<close>

type_synonym Index = "Letter \<Rightarrow> int"

record Alphabet =
  Len :: nat
  LetterIndex :: Index

text \<open>
  The constants \<^verbatim>\<open>diag\<close>, \<^verbatim>\<open>up\<close> and \<^verbatim>\<open>left\<close> are declared elsewhere in the package.
  They are the three keys of the array literal \<^verbatim>\<open>[3]int{diag: .., up: .., left: ..}\<close>,
  hence three different values.
\<close>

datatype direction = Diag | Up | Left

record feature =
  start :: nat
  end_f :: nat

record featPair =
  fa :: feature
  fb :: feature
  score :: score

datatype error = ErrMatrixNotSquare | PanicIndexOutOfRange | PanicNoPath nat nat

subsection \<open>Reading the matrix\<close>

text \<open>\<^verbatim>\<open>a[x][y]\<close> for Go integers \<open>x\<close> and \<open>y\<close>: an index out of range panics.\<close>

definition at2 :: "NW \<Rightarrow> int \<Rightarrow> int \<Rightarrow> error + score" where
  "at2 a x y =
     (if 0 \<le> x \<and> x < int (length a) then
        (if 0 \<le> y \<and> y < int (length (a ! nat x)) then Inr (a ! nat x ! nat y)
         else Inl PanicIndexOutOfRange)
      else Inl PanicIndexOutOfRange)"

text \<open>
  Modelled from the spec: the helper \<^verbatim>\<open>max(&scores)\<close> of the package is not part of the
  sources at hand; the spec gives the cell as the maximum of the three candidates, here
  with Go's signed comparison.
\<close>

definition max_scores :: "score \<Rightarrow> score \<Rightarrow> score \<Rightarrow> score" where
  "max_scores d u l =
     (let m = d;
          m = (if m <s u then u else m);
          m = (if m <s l then l else m)
      in m)"

subsection \<open>Building the table\<close>

text \<open>\<^verbatim>\<open>for j := range table[1:c] { table[j+1] = table[j] + a[gap][index[qSeq[j]]] }\<close>\<close>

function initRow :: "NW \<Rightarrow> Index \<Rightarrow> Letters \<Rightarrow> int \<Rightarrow> nat \<Rightarrow> nat \<Rightarrow> score list \<Rightarrow> error + score list" where
  "initRow a index qSeq gap c j table =
     (if j + 1 < c then
        (case at2 a gap (index (qSeq ! j)) of
           Inl e \<Rightarrow> Inl e
         | Inr v \<Rightarrow> initRow a index qSeq gap c (j + 1) (table[j + 1 := table ! j + v]))
      else Inr table)"
  by pat_completeness auto
termination
  by (relation "measure (\<lambda>(a, index, qSeq, gap, c, j, table). c - j)") auto

text \<open>\<^verbatim>\<open>for i := 1; i < r; i++ { table[i*c] = table[(i-1)*c] + a[index[rSeq[i-1]]][gap] }\<close>\<close>

function initCol :: "NW \<Rightarrow> Index \<Rightarrow> Letters \<Rightarrow> int \<Rightarrow> nat \<Rightarrow> nat \<Rightarrow> nat \<Rightarrow> score list \<Rightarrow> error + score list" where
  "initCol a index rSeq gap r c i table =
     (if i < r then
        (case at2 a (index (rSeq ! (i - 1))) gap of
           Inl e \<Rightarrow> Inl e
         | Inr v \<Rightarrow> initCol a index rSeq gap r c (i + 1) (table[i * c := table ! ((i - 1) * c) + v]))
      else Inr table)"
  by pat_completeness auto
termination
  by (relation "measure (\<lambda>(a, index, rSeq, gap, r, c, i, table). r - i)") auto

text \<open>The inner loop over \<open>j\<close> of the fill, for one row \<open>i\<close>.\<close>

function fillRow :: "NW \<Rightarrow> Index \<Rightarrow> Letters \<Rightarrow> Letters \<Rightarrow> int \<Rightarrow> nat \<Rightarrow> nat \<Rightarrow> nat \<Rightarrow> score list \<Rightarrow> error + score list" where
  "fillRow a index rSeq qSeq gap c i j table =
     (if j < c then
        (let rVal = index (rSeq ! (i - 1));
             qVal = index (qSeq ! (j - 1))
         in if rVal < 0 \<or> qVal < 0 then fillRow a index rSeq qSeq gap c i (j + 1) table
            else
              (let p = i * c + j in
               case at2 a rVal qVal of
                 Inl e \<Rightarrow> Inl e
               | Inr d \<Rightarrow>
                  (case at2 a rVal gap of
                     Inl e \<Rightarrow> Inl e
                   | Inr u \<Rightarrow>
                      (case at2 a gap qVal of
                         Inl e \<Rightarrow> Inl e
                       | Inr l \<Rightarrow>
                          fillRow a index rSeq qSeq gap c i (j + 1)
                            (table[p := max_scores (table ! (p - c - 1) + d)
                                                   (table ! (p - c) + u)
                                                   (table ! (p - 1) + l)])))))
      else Inr table)"
  by pat_completeness auto
termination
  by (relation "measure (\<lambda>(a, index, rSeq, qSeq, gap, c, i, j, table). c - j)") auto

text \<open>The outer loop over \<open>i\<close> of the fill.\<close>

function fillRows :: "NW \<Rightarrow> Index \<Rightarrow> Letters \<Rightarrow> Letters \<Rightarrow> int \<Rightarrow> nat \<Rightarrow> nat \<Rightarrow> nat \<Rightarrow> score list \<Rightarrow> error + score list" where
  "fillRows a index rSeq qSeq gap r c i table =
     (if i < r then
        (case fillRow a index rSeq qSeq gap c i 1 table of
           Inl e \<Rightarrow> Inl e
         | Inr table' \<Rightarrow> fillRows a index rSeq qSeq gap r c (i + 1) table')
      else Inr table)"
  by pat_completeness auto
termination
  by (relation "measure (\<lambda>(a, index, rSeq, qSeq, gap, r, c, i, table). r - i)") auto

text \<open>Lines 87 to 115: the table is allocated zeroed, then the three loops run.\<close>

definition buildTable :: "NW \<Rightarrow> Index \<Rightarrow> Letters \<Rightarrow> Letters \<Rightarrow> error + score list" where
  "buildTable a index rSeq qSeq =
     (let gap = int (length a) - 1;
          r = length rSeq + 1;
          c = length qSeq + 1;
          table = replicate (r * c) 0
      in case initRow a index qSeq gap c 0 table of
           Inl e \<Rightarrow> Inl e
         | Inr t1 \<Rightarrow>
            (case initCol a index rSeq gap r c 1 t1 of
               Inl e \<Rightarrow> Inl e
             | Inr t2 \<Rightarrow> fillRows a index rSeq qSeq gap r c 1 t2))"

subsection \<open>Traceback\<close>

record tbState =
  st_i :: nat
  st_j :: nat
  st_maxI :: nat
  st_maxJ :: nat
  st_score :: score
  st_last :: direction
  st_aln :: "featPair list"

definition segment :: "nat \<Rightarrow> nat \<Rightarrow> nat \<Rightarrow> nat \<Rightarrow> score \<Rightarrow> featPair" where
  "segment s1 e1 s2 e2 sc = \<lparr>fa = \<lparr>start = s1, end_f = e1\<rparr>, fb = \<lparr>start = s2, end_f = e2\<rparr>, score = sc\<rparr>"

text \<open>
  The block \<^verbatim>\<open>if last != d { aln = append(aln, ..); maxI, maxJ = i, j; score = 0 }\<close>,
  which each of the three cases of the switch starts with.
\<close>

definition closeSegment :: "direction \<Rightarrow> tbState \<Rightarrow> tbState" where
  "closeSegment d st =
     (if st_last st \<noteq> d then
        st\<lparr>st_aln := st_aln st @ [segment (st_i st) (st_maxI st) (st_j st) (st_maxJ st) (st_score st)],
           st_maxI := st_i st, st_maxJ := st_j st, st_score := 0\<rparr>
      else st)"

text \<open>
  The body of the loop \<^verbatim>\<open>for i > 0 && j > 0\<close>. The cases of the switch are tried in
  order, and the expression of a case is evaluated only when the cases before it did not
  match. \<^verbatim>\<open>continue\<close> leaves the state as it is.
\<close>

definition tbStep :: "NW \<Rightarrow> Index \<Rightarrow> Letters \<Rightarrow> Letters \<Rightarrow> int \<Rightarrow> nat \<Rightarrow> score list \<Rightarrow> tbState \<Rightarrow> error + tbState" where
  "tbStep a index rSeq qSeq gap c table st =
     (let rVal = index (rSeq ! (st_i st - 1));
          qVal = index (qSeq ! (st_j st - 1))
      in if rVal < 0 \<or> qVal < 0 then Inr st
         else
           (let p = st_i st * c + st_j st in
            case at2 a rVal qVal of
              Inl e \<Rightarrow> Inl e
            | Inr d \<Rightarrow>
               if table ! p = table ! (p - c - 1) + d then
                 (let st1 = closeSegment Diag st in
                  Inr (st1\<lparr>st_score := st_score st1 + (table ! p - table ! (p - c - 1)),
                           st_i := st_i st1 - 1, st_j := st_j st1 - 1, st_last := Diag\<rparr>))
               else
                 (case at2 a rVal gap of
                    Inl e \<Rightarrow> Inl e
                  | Inr u \<Rightarrow>
                     if table ! p = table ! (p - c) + u then
                       (let st1 = closeSegment Up st in
                        Inr (st1\<lparr>st_score := st_score st1 + (table ! p - table ! (p - c)),
                                 st_i := st_i st1 - 1, st_last := Up\<rparr>))
                     else
                       (case at2 a gap qVal of
                          Inl e \<Rightarrow> Inl e
                        | Inr l \<Rightarrow>
                           if table ! p = table ! (p - 1) + l then
                             (let st1 = closeSegment Left st in
                              Inr (st1\<lparr>st_score := st_score st1 + (table ! p - table ! (p - 1)),
                                       st_j := st_j st1 - 1, st_last := Left\<rparr>))
                           else Inl (PanicNoPath (st_i st) (st_j st))))))"

partial_function (option) traceback :: "NW \<Rightarrow> Index \<Rightarrow> Letters \<Rightarrow> Letters \<Rightarrow> int \<Rightarrow> nat \<Rightarrow> score list \<Rightarrow> tbState \<Rightarrow> (error + tbState) option" where
  "traceback a index rSeq qSeq gap c table st =
     (if st_i st > 0 \<and> st_j st > 0 then
        (case tbStep a index rSeq qSeq gap c table st of
           Inl e \<Rightarrow> Some (Inl e)
         | Inr st' \<Rightarrow> traceback a index rSeq qSeq gap c table st')
      else Some (Inr st))"

declare traceback.simps [code]

text \<open>\<^verbatim>\<open>for i, j := 0, len(aln)-1; i < j; i, j = i+1, j-1 { aln[i], aln[j] = aln[j], aln[i] }\<close>\<close>

function reverse_aln :: "nat \<Rightarrow> nat \<Rightarrow> 'a list \<Rightarrow> 'a list" where
  "reverse_aln i j aln =
     (if i < j then reverse_aln (i + 1) (j - 1) (aln[i := aln ! j, j := aln ! i]) else aln)"
  by pat_completeness auto
termination
  by (relation "measure (\<lambda>(i, j, aln). j - i)") auto

text \<open>Lines 180 to 195: the open segment, the leading block, the reversal.\<close>

definition finish :: "nat \<Rightarrow> score list \<Rightarrow> tbState \<Rightarrow> featPair list" where
  "finish c table st =
     (let aln1 = st_aln st @ [segment (st_i st) (st_maxI st) (st_j st) (st_maxJ st) (st_score st)];
          aln2 = (if st_i st \<noteq> st_j st
                  then aln1 @ [segment 0 (st_i st) 0 (st_j st) (table ! (st_i st * c + st_j st))]
                  else aln1)
      in reverse_aln 0 (length aln2 - 1) aln2)"

definition initState :: "nat \<Rightarrow> nat \<Rightarrow> tbState" where
  "initState r c =
     \<lparr>st_i = r - 1, st_j = c - 1, st_maxI = r - 1, st_maxJ = c - 1,
      st_score = 0, st_last = Diag, st_aln = []\<rparr>"

definition alignLetters :: "NW \<Rightarrow> Letters \<Rightarrow> Letters \<Rightarrow> Alphabet \<Rightarrow> (error + featPair list) option" where
  "alignLetters a rSeq qSeq alpha =
     (let gap = int (length a) - 1 in
      if \<exists>row \<in> set a. int (length row) \<noteq> gap + 1 then Some (Inl ErrMatrixNotSquare)
      else
        (let index = LetterIndex alpha;
             r = length rSeq + 1;
             c = length qSeq + 1
         in case buildTable a index rSeq qSeq of
              Inl e \<Rightarrow> Some (Inl e)
            | Inr table \<Rightarrow>
               (case traceback a index rSeq qSeq gap c table (initState r c) of
                  None \<Rightarrow> None
                | Some (Inl e) \<Rightarrow> Some (Inl e)
                | Some (Inr st) \<Rightarrow> Some (Inr (finish c table st)))))"

subsection \<open>Inputs used in the examples\<close>

text \<open>The alphabet A, C, G, T with indices 0 to 3; every other byte has index -1.\<close>

definition dnaIndex :: Index where
  "dnaIndex l = (if l = 65 then 0 else if l = 67 then 1 else if l = 71 then 2 else if l = 84 then 3 else - 1)"

definition dna :: Alphabet where
  "dna = \<lparr>Len = 4, LetterIndex = dnaIndex\<rparr>"

text \<open>Match 1, mismatch 0, gap 0.\<close>

definition identityMatrix :: NW where
  "identityMatrix =
     [[1, 0, 0, 0, 0],
      [0, 1, 0, 0, 0],
      [0, 0, 1, 0, 0],
      [0, 0, 0, 1, 0],
      [0, 0, 0, 0, 0]]"

text \<open>Match 1, mismatch 0, gap -1.\<close>

definition gapMatrix :: NW where
  "gapMatrix =
     [[1, 0, 0, 0, - 1],
      [0, 1, 0, 0, - 1],
      [0, 0, 1, 0, - 1],
      [0, 0, 0, 1, - 1],
      [- 1, - 1, - 1, - 1, 0]]"

text \<open>A square matrix for an alphabet of one letter; the alphabet \<open>dna\<close> has four.\<close>

definition smallMatrix :: NW where
  "smallMatrix = [[1, 0], [0, 0]]"

subsection \<open>Properties of a list of segments\<close>

text \<open>
  \<open>tiles lo hi fs\<close>: the intervals \<open>fs\<close>, in this order, start at \<open>lo\<close>, each starts where
  the one before ends, none ends before it starts, and the last ends at \<open>hi\<close>.
  \<open>covers x f\<close>: position \<open>x\<close> lies in the half-open interval \<open>f\<close>.
\<close>

fun tiles :: "nat \<Rightarrow> nat \<Rightarrow> feature list \<Rightarrow> bool" where
  "tiles lo hi [] = (lo = hi)"
| "tiles lo hi (f # fs) = (start f = lo \<and> start f \<le> end_f f \<and> tiles (end_f f) hi fs)"

definition covers :: "nat \<Rightarrow> feature \<Rightarrow> bool" where
  "covers x f = (start f \<le> x \<and> x < end_f f)"

subsection \<open>The recurrence of the table, for comparison\<close>

text \<open>
  \<open>entry a x y\<close> is the matrix entry \<^verbatim>\<open>a[x][y]\<close> where the indices are in range.
  \<open>grid\<close> is the recurrence the table is meant to satisfy, written over rows \<open>i\<close> and
  columns \<open>j\<close> instead of positions of the flat table; the lemmas below compare the table
  that \<open>buildTable\<close> returns with it.
\<close>

definition entry :: "NW \<Rightarrow> int \<Rightarrow> int \<Rightarrow> score" where
  "entry a x y = a ! nat x ! nat y"

fun grid :: "NW \<Rightarrow> Index \<Rightarrow> Letters \<Rightarrow> Letters \<Rightarrow> nat \<Rightarrow> nat \<Rightarrow> score" where
  "grid a index rSeq qSeq 0 0 = 0"
| "grid a index rSeq qSeq 0 (Suc j) =
     grid a index rSeq qSeq 0 j + entry a (int (length a) - 1) (index (qSeq ! j))"
| "grid a index rSeq qSeq (Suc i) 0 =
     grid a index rSeq qSeq i 0 + entry a (index (rSeq ! i)) (int (length a) - 1)"
| "grid a index rSeq qSeq (Suc i) (Suc j) =
     max_scores (grid a index rSeq qSeq i j + entry a (index (rSeq ! i)) (index (qSeq ! j)))
                (grid a index rSeq qSeq i (Suc j) + entry a (index (rSeq ! i)) (int (length a) - 1))
                (grid a index rSeq qSeq (Suc i) j + entry a (int (length a) - 1) (index (qSeq ! j)))"

section \<open>Auxiliary facts\<close>

declare initRow.simps [simp del] initCol.simps [simp del] fillRow.simps [simp del] fillRows.simps [simp del] reverse_aln.simps [simp del]

lemma at2_Inl: "at2 a x y = Inl e \<Longrightarrow> e = PanicIndexOutOfRange"
  by (auto simp: at2_def split: if_splits)

lemma at2_Inr:
  "at2 a x y = Inr v \<Longrightarrow> 0 \<le> x \<and> x < int (length a) \<and> 0 \<le> y \<and> y < int (length (a ! nat x)) \<and> v = a ! nat x ! nat y"
  by (auto simp: at2_def split: if_splits)

lemma initRow_Inl: "initRow a index qSeq gap c j table = Inl e \<Longrightarrow> e = PanicIndexOutOfRange"
proof (induction a index qSeq gap c j table rule: initRow.induct)
  case (1 a index qSeq gap c j table)
  from "1.prems" have lt: "j + 1 < c"
    by (subst (asm) initRow.simps) (simp split: if_splits)
  show ?case
  proof (cases "at2 a gap (index (qSeq ! j))")
    case (Inl e')
    with "1.prems" lt show ?thesis
      by (subst (asm) initRow.simps) (simp add: at2_Inl)
  next
    case (Inr v)
    with "1.prems" lt have "initRow a index qSeq gap c (j + 1) (table[j + 1 := table ! j + v]) = Inl e"
      by (subst (asm) initRow.simps) simp
    with "1.IH" [OF lt Inr] show ?thesis by simp
  qed
qed

lemma initCol_Inl: "initCol a index rSeq gap r c i table = Inl e \<Longrightarrow> e = PanicIndexOutOfRange"
proof (induction a index rSeq gap r c i table rule: initCol.induct)
  case (1 a index rSeq gap r c i table)
  from "1.prems" have lt: "i < r"
    by (subst (asm) initCol.simps) (simp split: if_splits)
  show ?case
  proof (cases "at2 a (index (rSeq ! (i - 1))) gap")
    case (Inl e')
    with "1.prems" lt show ?thesis
      by (subst (asm) initCol.simps) (simp add: at2_Inl)
  next
    case (Inr v)
    with "1.prems" lt have "initCol a index rSeq gap r c (i + 1) (table[i * c := table ! ((i - 1) * c) + v]) = Inl e"
      by (subst (asm) initCol.simps) simp
    with "1.IH" [OF lt Inr] show ?thesis by simp
  qed
qed

text \<open>One iteration of the inner loop of the fill, as the function unfolds.\<close>

lemma fillRow_unfold:
  "j < c \<Longrightarrow> fillRow a index rSeq qSeq gap c i j table =
     (if index (rSeq ! (i - 1)) < 0 \<or> index (qSeq ! (j - 1)) < 0
      then fillRow a index rSeq qSeq gap c i (j + 1) table
      else case at2 a (index (rSeq ! (i - 1))) (index (qSeq ! (j - 1))) of
             Inl e \<Rightarrow> Inl e
           | Inr d \<Rightarrow>
              (case at2 a (index (rSeq ! (i - 1))) gap of
                 Inl e \<Rightarrow> Inl e
               | Inr u \<Rightarrow>
                  (case at2 a gap (index (qSeq ! (j - 1))) of
                     Inl e \<Rightarrow> Inl e
                   | Inr l \<Rightarrow>
                      fillRow a index rSeq qSeq gap c i (j + 1)
                        (table[i * c + j := max_scores (table ! (i * c + j - c - 1) + d)
                                               (table ! (i * c + j - c) + u)
                                               (table ! (i * c + j - 1) + l)]))))"
  by (subst fillRow.simps) (simp only: Let_def if_True)

lemma fillRow_done: "\<not> j < c \<Longrightarrow> fillRow a index rSeq qSeq gap c i j table = Inr table"
  by (subst fillRow.simps) simp

lemma fillRow_Inl: "fillRow a index rSeq qSeq gap c i j table = Inl e \<Longrightarrow> e = PanicIndexOutOfRange"
proof (induction a index rSeq qSeq gap c i j table rule: fillRow.induct)
  case (1 a index rSeq qSeq gap c i j table)
  have lt: "j < c"
  proof (rule ccontr)
    assume "\<not> j < c"
    with "1.prems" show False by (simp add: fillRow_done)
  qed
  note u = "1.prems" [unfolded fillRow_unfold [OF lt]]
  show ?case
  proof (cases "index (rSeq ! (i - 1)) < 0 \<or> index (qSeq ! (j - 1)) < 0")
    case True
    with u have "fillRow a index rSeq qSeq gap c i (j + 1) table = Inl e" by simp
    with "1.IH"(1) [OF lt refl refl True] show ?thesis by simp
  next
    case False
    show ?thesis
    proof (cases "at2 a (index (rSeq ! (i - 1))) (index (qSeq ! (j - 1)))")
      case (Inl e1) with u False show ?thesis by (simp add: at2_Inl)
    next
      case d: (Inr d)
      show ?thesis
      proof (cases "at2 a (index (rSeq ! (i - 1))) gap")
        case (Inl e2) with u False d show ?thesis by (simp add: at2_Inl)
      next
        case u': (Inr uu)
        show ?thesis
        proof (cases "at2 a gap (index (qSeq ! (j - 1)))")
          case (Inl e3) with u False d u' show ?thesis by (simp add: at2_Inl)
        next
          case l: (Inr l)
          with u False d u' have "fillRow a index rSeq qSeq gap c i (j + 1)
                        (table[i * c + j := max_scores (table ! (i * c + j - c - 1) + d)
                                               (table ! (i * c + j - c) + uu)
                                               (table ! (i * c + j - 1) + l)]) = Inl e" by simp
          with "1.IH"(2) [OF lt refl refl False refl d u' l] show ?thesis by simp
        qed
      qed
    qed
  qed
qed

lemma fillRows_Inl: "fillRows a index rSeq qSeq gap r c i table = Inl e \<Longrightarrow> e = PanicIndexOutOfRange"
proof (induction a index rSeq qSeq gap r c i table rule: fillRows.induct)
  case (1 a index rSeq qSeq gap r c i table)
  from "1.prems" have lt: "i < r"
    by (subst (asm) fillRows.simps) (simp split: if_splits)
  show ?case
  proof (cases "fillRow a index rSeq qSeq gap c i 1 table")
    case (Inl e')
    with "1.prems" lt show ?thesis
      by (subst (asm) fillRows.simps) (simp add: fillRow_Inl)
  next
    case (Inr t)
    with "1.prems" lt have "fillRows a index rSeq qSeq gap r c (i + 1) t = Inl e"
      by (subst (asm) fillRows.simps) simp
    with "1.IH" [OF lt Inr] show ?thesis by simp
  qed
qed

lemma buildTable_Inl: "buildTable a index rSeq qSeq = Inl e \<Longrightarrow> e = PanicIndexOutOfRange"
  by (auto simp: buildTable_def Let_def split: sum.splits dest: initRow_Inl initCol_Inl fillRows_Inl)

lemma tbStep_Inl: "tbStep a index rSeq qSeq gap c table st = Inl e \<Longrightarrow> e \<noteq> ErrMatrixNotSquare"
  by (auto simp: tbStep_def Let_def split: if_splits sum.splits dest: at2_Inl)

text \<open>
  Invariant rule of the traceback loop: what holds of the first state and is kept by every
  iteration holds of the state the loop returns, where \<open>i\<close> or \<open>j\<close> is 0; an error the loop
  returns is the error of an iteration.
\<close>

lemma traceback_rule:
  assumes run: "traceback a index rSeq qSeq gap c table st = Some res"
    and init: "I st"
    and step: "\<forall>s s'. I s \<and> 0 < st_i s \<and> 0 < st_j s \<and>
                 tbStep a index rSeq qSeq gap c table s = Inr s' \<longrightarrow> I s'"
  shows "(\<forall>s'. res = Inr s' \<longrightarrow> I s' \<and> (st_i s' = 0 \<or> st_j s' = 0)) \<and>
         (\<forall>e. res = Inl e \<longrightarrow> (\<exists>s. I s \<and> 0 < st_i s \<and> 0 < st_j s \<and> tbStep a index rSeq qSeq gap c table s = Inl e))"
proof -
  define Q where "Q = (\<lambda>res. (\<forall>s'. res = Inr s' \<longrightarrow> I s' \<and> (st_i s' = 0 \<or> st_j s' = 0)) \<and>
         (\<forall>e. res = Inl e \<longrightarrow> (\<exists>s. I s \<and> 0 < st_i s \<and> 0 < st_j s \<and> tbStep a index rSeq qSeq gap c table s = Inl e)))"
  define P where "P = (\<lambda>(a'::NW) (index'::Index) (rSeq'::Letters) (qSeq'::Letters) (gap'::int) (c'::nat)
                          (table'::score list) (s::tbState) (r::error + tbState).
       (a', index', rSeq', qSeq', gap', c', table') = (a, index, rSeq, qSeq, gap, c, table) \<longrightarrow> I s \<longrightarrow> Q r)"
  have "P a index rSeq qSeq gap c table st res"
  proof (rule traceback.raw_induct [where P = P, OF _ run])
    fix tb a' index' rSeq' qSeq' gap' c' table' s r
    assume IH: "\<And>a index rSeq qSeq gap c table st y.
                  tb a index rSeq qSeq gap c table st = Some y \<Longrightarrow> P a index rSeq qSeq gap c table st y"
      and eq: "(if 0 < st_i s \<and> 0 < st_j s
                then case tbStep a' index' rSeq' qSeq' gap' c' table' s of
                       Inl e \<Rightarrow> Some (Inl e)
                     | Inr st' \<Rightarrow> tb a' index' rSeq' qSeq' gap' c' table' st'
                else Some (Inr s)) = Some r"
    show "P a' index' rSeq' qSeq' gap' c' table' s r"
      unfolding P_def
    proof (intro impI)
      assume same: "(a', index', rSeq', qSeq', gap', c', table') = (a, index, rSeq, qSeq, gap, c, table)"
        and Is: "I s"
      show "Q r"
      proof (cases "0 < st_i s \<and> 0 < st_j s")
        case False
        with eq have "r = Inr s" by (simp split: if_splits)
        with Is False show ?thesis unfolding Q_def by simp
      next
        case True
        show ?thesis
        proof (cases "tbStep a index rSeq qSeq gap c table s")
          case (Inl e)
          with eq True same have "r = Inl e" by simp
          with Is Inl True show ?thesis unfolding Q_def by blast
        next
          case (Inr s')
          with eq True same have "tb a index rSeq qSeq gap c table s' = Some r" by simp
          from IH [OF this] have "P a index rSeq qSeq gap c table s' r" .
          moreover from step Is Inr True have "I s'" by blast
          ultimately show ?thesis unfolding P_def by simp
        qed
      qed
    qed
  qed
  with init show ?thesis unfolding P_def Q_def by simp
qed

lemma traceback_Inl:
  assumes "traceback a index rSeq qSeq gap c table st = Some (Inl e)"
  shows "e \<noteq> ErrMatrixNotSquare"
proof -
  from traceback_rule [where I = "\<lambda>s. True", OF assms]
  obtain s where "tbStep a index rSeq qSeq gap c table s = Inl e" by auto
  then show ?thesis by (rule tbStep_Inl)
qed

subsection \<open>The reversal loop\<close>

lemma reverse_aln_nth:
  "i + j + 1 = length xs \<Longrightarrow>
     length (reverse_aln i j xs) = length xs \<and>
     (\<forall>k < length xs. reverse_aln i j xs ! k = (if i \<le> k \<and> k \<le> j then xs ! (i + j - k) else xs ! k))"
proof (induction i j xs rule: reverse_aln.induct)
  case (1 i j aln)
  show ?case
  proof (cases "i < j")
    case False
    then have "reverse_aln i j aln = aln" by (subst reverse_aln.simps) simp
    moreover have "aln ! (i + j - k) = aln ! k" if "i \<le> k" "k \<le> j" for k
    proof -
      from that False have "i + j - k = k" by simp
      then show ?thesis by simp
    qed
    ultimately show ?thesis by simp
  next
    case True
    let ?ys = "aln[i := aln ! j, j := aln ! i]"
    have unf: "reverse_aln i j aln = reverse_aln (i + 1) (j - 1) ?ys"
      using True by (subst reverse_aln.simps) simp
    from True "1.prems" have len: "(i + 1) + (j - 1) + 1 = length ?ys" by simp
    note IH = "1.IH" [OF True len]
    have "reverse_aln i j aln ! k = (if i \<le> k \<and> k \<le> j then aln ! (i + j - k) else aln ! k)"
      if k: "k < length aln" for k
    proof -
      from IH k have e: "reverse_aln i j aln ! k =
          (if i + 1 \<le> k \<and> k \<le> j - 1 then ?ys ! ((i + 1) + (j - 1) - k) else ?ys ! k)"
        unfolding unf by simp
      from True "1.prems" have ij: "i < length aln" "j < length aln" by simp_all
      consider "k < i" | "k = i" | "i < k \<and> k < j" | "k = j" | "j < k" by linarith
      then show ?thesis
      proof cases
        case 1 with e True show ?thesis by simp
      next
        case 2 with e True ij show ?thesis by simp
      next
        case 3
        then have a: "i + 1 \<le> k \<and> k \<le> j - 1" by linarith
        from 3 have b: "(i + 1) + (j - 1) - k = i + j - k" by linarith
        from 3 have c: "i + j - k \<noteq> i" "i + j - k \<noteq> j" by linarith+
        from e a have "reverse_aln i j aln ! k = ?ys ! ((i + 1) + (j - 1) - k)" by simp
        also have "\<dots> = ?ys ! (i + j - k)" by (simp only: b)
        also from c have "\<dots> = aln ! (i + j - k)" by simp
        finally show ?thesis using 3 by simp
      next
        case 4
        from True have "\<not> j \<le> j - 1" by linarith
        with 4 e True ij show ?thesis by simp
      next
        case 5
        then have "\<not> k \<le> j - 1" by linarith
        with 5 e True show ?thesis by simp
      qed
    qed
    with IH unf show ?thesis by simp
  qed
qed

lemma reverse_aln_rev: "reverse_aln 0 (length xs - 1) xs = rev xs"
proof (cases "xs = []")
  case True
  then show ?thesis by (subst reverse_aln.simps) simp
next
  case False
  then have l: "0 + (length xs - 1) + 1 = length xs" by (cases xs) simp_all
  note n = reverse_aln_nth [OF l]
  show ?thesis
  proof (rule nth_equalityI)
    from n show "length (reverse_aln 0 (length xs - 1) xs) = length (rev xs)" by simp
  next
    fix k assume "k < length (reverse_aln 0 (length xs - 1) xs)"
    with n have k: "k < length xs" by simp
    then have "k \<le> length xs - 1" by simp
    with n k have "reverse_aln 0 (length xs - 1) xs ! k = xs ! (length xs - 1 - k)" by simp
    also from k have "\<dots> = rev xs ! k" by (simp add: rev_nth)
    finally show "reverse_aln 0 (length xs - 1) xs ! k = rev xs ! k" .
  qed
qed

lemma finish_rev:
  "finish c table st =
     rev (st_aln st @ [segment (st_i st) (st_maxI st) (st_j st) (st_maxJ st) (st_score st)] @
          (if st_i st \<noteq> st_j st
           then [segment 0 (st_i st) 0 (st_j st) (table ! (st_i st * c + st_j st))] else []))"
  unfolding finish_def Let_def by (simp only: reverse_aln_rev) simp

subsection \<open>One iteration of the traceback\<close>

lemma closeSegment_fields [simp]:
  "st_i (closeSegment d s) = st_i s" "st_j (closeSegment d s) = st_j s"
  by (simp_all add: closeSegment_def)

lemma tbStep_Inr_cases:
  assumes "tbStep a index rSeq qSeq gap c table s = Inr s'"
  obtains (stall) "s' = s"
    | (diag) "s' = (closeSegment Diag s)\<lparr>st_score := st_score (closeSegment Diag s) +
                      (table ! (st_i s * c + st_j s) - table ! (st_i s * c + st_j s - c - 1)),
                    st_i := st_i s - 1, st_j := st_j s - 1, st_last := Diag\<rparr>"
    | (up) "s' = (closeSegment Up s)\<lparr>st_score := st_score (closeSegment Up s) +
                      (table ! (st_i s * c + st_j s) - table ! (st_i s * c + st_j s - c)),
                    st_i := st_i s - 1, st_last := Up\<rparr>"
    | (left) "s' = (closeSegment Left s)\<lparr>st_score := st_score (closeSegment Left s) +
                      (table ! (st_i s * c + st_j s) - table ! (st_i s * c + st_j s - 1)),
                    st_j := st_j s - 1, st_last := Left\<rparr>"
  using assms unfolding tbStep_def Let_def
  by (auto split: if_splits sum.splits)

subsection \<open>What a successful call is made of\<close>

lemma alignLetters_Inr:
  assumes "alignLetters a rSeq qSeq alpha = Some (Inr aln)"
  obtains table st where
    "buildTable a (LetterIndex alpha) rSeq qSeq = Inr table"
    "traceback a (LetterIndex alpha) rSeq qSeq (int (length a) - 1) (length qSeq + 1) table
       (initState (length rSeq + 1) (length qSeq + 1)) = Some (Inr st)"
    "aln = finish (length qSeq + 1) table st"
  using assms unfolding alignLetters_def Let_def
  by (auto split: if_splits sum.splits option.splits)

subsection \<open>Intervals that tile a range\<close>

lemma tiles_le: "tiles lo hi fs \<Longrightarrow> lo \<le> hi"
proof (induction fs arbitrary: lo)
  case Nil
  then show ?case by simp
next
  case (Cons f fs)
  then have "lo \<le> end_f f" and "tiles (end_f f) hi fs" by simp_all
  with Cons.IH [of "end_f f"] show ?case by simp
qed

lemma tiles_count:
  "tiles lo hi fs \<Longrightarrow> length (filter (covers x) fs) = (if lo \<le> x \<and> x < hi then 1 else 0)"
proof (induction fs arbitrary: lo)
  case Nil
  then show ?case by simp
next
  case (Cons f fs)
  then have f: "start f = lo" "lo \<le> end_f f" and t: "tiles (end_f f) hi fs" by simp_all
  from tiles_le [OF t] have "end_f f \<le> hi" .
  with Cons.IH [OF t] f show ?case by (auto simp: covers_def)
qed

subsection \<open>The segments emitted by the traceback tile both sequences\<close>

lemma tbStep_tiles:
  assumes inv: "st_i s \<le> st_maxI s \<and> tiles (st_maxI s) R (map fa (rev (st_aln s))) \<and>
                st_j s \<le> st_maxJ s \<and> tiles (st_maxJ s) C (map fb (rev (st_aln s)))"
    and step: "tbStep a index rSeq qSeq gap c table s = Inr s'"
  shows "st_i s' \<le> st_maxI s' \<and> tiles (st_maxI s') R (map fa (rev (st_aln s'))) \<and>
         st_j s' \<le> st_maxJ s' \<and> tiles (st_maxJ s') C (map fb (rev (st_aln s')))"
  using step
proof (cases rule: tbStep_Inr_cases)
  case stall
  with inv show ?thesis by simp
next
  case diag
  with inv show ?thesis by (auto simp: closeSegment_def segment_def)
next
  case up
  with inv show ?thesis by (auto simp: closeSegment_def segment_def)
next
  case left
  with inv show ?thesis by (auto simp: closeSegment_def segment_def)
qed

subsection \<open>The loops that build the table, one iteration at a time\<close>

lemma initRow_done: "\<not> j + 1 < c \<Longrightarrow> initRow a index qSeq gap c j table = Inr table"
  by (subst initRow.simps) simp

lemma initRow_step:
  assumes "initRow a index qSeq gap c j table = Inr t" and "j + 1 < c"
  obtains v where "at2 a gap (index (qSeq ! j)) = Inr v"
    and "initRow a index qSeq gap c (j + 1) (table[j + 1 := table ! j + v]) = Inr t"
  using assms by (subst (asm) initRow.simps) (auto split: sum.splits)

lemma initCol_done: "\<not> i < r \<Longrightarrow> initCol a index rSeq gap r c i table = Inr table"
  by (subst initCol.simps) simp

lemma initCol_step:
  assumes "initCol a index rSeq gap r c i table = Inr t" and "i < r"
  obtains v where "at2 a (index (rSeq ! (i - 1))) gap = Inr v"
    and "initCol a index rSeq gap r c (i + 1) (table[i * c := table ! ((i - 1) * c) + v]) = Inr t"
  using assms by (subst (asm) initCol.simps) (auto split: sum.splits)

lemma fillRow_step:
  assumes "fillRow a index rSeq qSeq gap c i j table = Inr t" and "j < c"
  obtains (skip) "index (rSeq ! (i - 1)) < 0 \<or> index (qSeq ! (j - 1)) < 0"
      and "fillRow a index rSeq qSeq gap c i (j + 1) table = Inr t"
    | (cell) d u l where "0 \<le> index (rSeq ! (i - 1))" "0 \<le> index (qSeq ! (j - 1))"
      and "at2 a (index (rSeq ! (i - 1))) (index (qSeq ! (j - 1))) = Inr d"
      and "at2 a (index (rSeq ! (i - 1))) gap = Inr u"
      and "at2 a gap (index (qSeq ! (j - 1))) = Inr l"
      and "fillRow a index rSeq qSeq gap c i (j + 1)
             (table[i * c + j := max_scores (table ! (i * c + j - c - 1) + d)
                                            (table ! (i * c + j - c) + u)
                                            (table ! (i * c + j - 1) + l)]) = Inr t"
  using assms(1) unfolding fillRow_unfold [OF assms(2)]
  by (auto split: if_splits sum.splits)

lemma fillRows_done: "\<not> i < r \<Longrightarrow> fillRows a index rSeq qSeq gap r c i table = Inr table"
  by (subst fillRows.simps) simp

lemma fillRows_step:
  assumes "fillRows a index rSeq qSeq gap r c i table = Inr t" and "i < r"
  obtains t1 where "fillRow a index rSeq qSeq gap c i 1 table = Inr t1"
    and "fillRows a index rSeq qSeq gap r c (i + 1) t1 = Inr t"
  using assms by (subst (asm) fillRows.simps) (auto split: sum.splits)

subsection \<open>The first cell of the table stays 0\<close>

lemma initRow_nth0: "initRow a index qSeq gap c j table = Inr t \<Longrightarrow> t ! 0 = table ! 0"
proof (induction a index qSeq gap c j table rule: initRow.induct)
  case (1 a index qSeq gap c j table)
  show ?case
  proof (cases "j + 1 < c")
    case False
    with "1.prems" show ?thesis by (simp add: initRow_done)
  next
    case True
    from "1.prems" True obtain v where v: "at2 a gap (index (qSeq ! j)) = Inr v"
      and rest: "initRow a index qSeq gap c (j + 1) (table[j + 1 := table ! j + v]) = Inr t"
      by (rule initRow_step)
    from "1.IH" [OF True v rest] show ?thesis by simp
  qed
qed

lemma initCol_nth0:
  "initCol a index rSeq gap r c i table = Inr t \<Longrightarrow> 0 < i \<Longrightarrow> 0 < c \<Longrightarrow> t ! 0 = table ! 0"
proof (induction a index rSeq gap r c i table rule: initCol.induct)
  case (1 a index rSeq gap r c i table)
  show ?case
  proof (cases "i < r")
    case False
    with "1.prems" show ?thesis by (simp add: initCol_done)
  next
    case True
    from "1.prems"(1) True obtain v where v: "at2 a (index (rSeq ! (i - 1))) gap = Inr v"
      and rest: "initCol a index rSeq gap r c (i + 1) (table[i * c := table ! ((i - 1) * c) + v]) = Inr t"
      by (rule initCol_step)
    from "1.prems" have "i * c \<noteq> 0" by simp
    with "1.IH" [OF True v rest] "1.prems" show ?thesis by simp
  qed
qed

lemma fillRow_nth0:
  "fillRow a index rSeq qSeq gap c i j table = Inr t \<Longrightarrow> 0 < j \<Longrightarrow> t ! 0 = table ! 0"
proof (induction a index rSeq qSeq gap c i j table rule: fillRow.induct)
  case (1 a index rSeq qSeq gap c i j table)
  show ?case
  proof (cases "j < c")
    case False
    with "1.prems" show ?thesis by (simp add: fillRow_done)
  next
    case True
    from "1.prems"(1) True show ?thesis
    proof (cases rule: fillRow_step)
      case skip
      from "1.IH"(1) [OF True refl refl skip(1) skip(2)] show ?thesis by simp
    next
      case (cell d u l)
      from cell(1,2) have n: "\<not> (index (rSeq ! (i - 1)) < 0 \<or> index (qSeq ! (j - 1)) < 0)" by simp
      from "1.prems" have "i * c + j \<noteq> 0" by simp
      with "1.IH"(2) [OF True refl refl n refl cell(3) cell(4) cell(5) cell(6)] show ?thesis by simp
    qed
  qed
qed

lemma fillRows_nth0:
  "fillRows a index rSeq qSeq gap r c i table = Inr t \<Longrightarrow> t ! 0 = table ! 0"
proof (induction a index rSeq qSeq gap r c i table rule: fillRows.induct)
  case (1 a index rSeq qSeq gap r c i table)
  show ?case
  proof (cases "i < r")
    case False
    with "1.prems" show ?thesis by (simp add: fillRows_done)
  next
    case True
    from "1.prems" True obtain t1 where t1: "fillRow a index rSeq qSeq gap c i 1 table = Inr t1"
      and rest: "fillRows a index rSeq qSeq gap r c (i + 1) t1 = Inr t"
      by (rule fillRows_step)
    from "1.IH" [OF True t1 rest] fillRow_nth0 [OF t1] show ?thesis by simp
  qed
qed

lemma buildTable_nth0: "buildTable a index rSeq qSeq = Inr table \<Longrightarrow> table ! 0 = 0"
  unfolding buildTable_def Let_def
  by (auto split: sum.splits dest!: initRow_nth0 fillRows_nth0 dest: initCol_nth0)

subsection \<open>The scores of the segments add up\<close>

lemma cell_index:
  "0 < i \<Longrightarrow> 0 < j \<Longrightarrow> (i - 1) * c + (j - 1) = i * c + j - c - (1::nat)"
  "0 < i \<Longrightarrow> (i - 1) * c + j = i * c + j - (c::nat)"
  "0 < j \<Longrightarrow> i * c + (j - 1) = i * c + j - (1::nat)"
  by (cases i; cases j; simp)+

lemma sum_list_map_rev:
  fixes f :: "'a \<Rightarrow> score"
  shows "sum_list (map f (rev xs)) = sum_list (map f xs)"
  by (induction xs) (simp_all add: add.commute)

lemma tbStep_score:
  assumes inv: "sum_list (map score (st_aln s)) + st_score s + table ! (st_i s * c + st_j s) = K"
    and pos: "0 < st_i s" "0 < st_j s"
    and step: "tbStep a index rSeq qSeq gap c table s = Inr s'"
  shows "sum_list (map score (st_aln s')) + st_score s' + table ! (st_i s' * c + st_j s') = K"
  using step
proof (cases rule: tbStep_Inr_cases)
  case stall
  with inv show ?thesis by simp
next
  case diag
  with inv [symmetric] cell_index(1) [OF pos, of c] show ?thesis
    by (simp add: closeSegment_def segment_def algebra_simps)
next
  case up
  with inv [symmetric] cell_index(2) [OF pos(1), of c "st_j s"] show ?thesis
    by (simp add: closeSegment_def segment_def algebra_simps)
next
  case left
  with inv [symmetric] cell_index(3) [OF pos(2), of "st_i s" c] show ?thesis
    by (simp add: closeSegment_def segment_def algebra_simps)
qed

subsection \<open>The traceback ends\<close>

lemma tbStep_decreases:
  assumes step: "tbStep a index rSeq qSeq gap c table s = Inr s'"
    and pos: "0 < st_i s" "0 < st_j s"
    and rec: "0 \<le> index (rSeq ! (st_i s - 1))" "0 \<le> index (qSeq ! (st_j s - 1))"
  shows "st_i s' + st_j s' < st_i s + st_j s \<and> st_i s' \<le> st_i s \<and> st_j s' \<le> st_j s"
proof -
  from rec have n: "\<not> (index (rSeq ! (st_i s - 1)) < 0 \<or> index (qSeq ! (st_j s - 1)) < 0)"
    by simp
  from step pos show ?thesis
    unfolding tbStep_def Let_def
    by (simp only: n if_False) (auto split: if_splits sum.splits)
qed

lemma traceback_terminates:
  assumes r: "\<forall>k < length rSeq. 0 \<le> index (rSeq ! k)"
    and q: "\<forall>k < length qSeq. 0 \<le> index (qSeq ! k)"
  shows "st_i s \<le> length rSeq \<Longrightarrow> st_j s \<le> length qSeq \<Longrightarrow>
         \<exists>res. traceback a index rSeq qSeq gap c table s = Some res"
proof (induction "st_i s + st_j s" arbitrary: s rule: less_induct)
  case less
  show ?case
  proof (cases "0 < st_i s \<and> 0 < st_j s")
    case False
    then show ?thesis by (subst traceback.simps) auto
  next
    case True
    show ?thesis
    proof (cases "tbStep a index rSeq qSeq gap c table s")
      case (Inl e)
      with True show ?thesis by (subst traceback.simps) simp
    next
      case (Inr s')
      from True less.prems have "st_i s - 1 < length rSeq" "st_j s - 1 < length qSeq" by linarith+
      with r q have "0 \<le> index (rSeq ! (st_i s - 1))" "0 \<le> index (qSeq ! (st_j s - 1))" by blast+
      with tbStep_decreases [OF Inr] True
      have d: "st_i s' + st_j s' < st_i s + st_j s" "st_i s' \<le> st_i s" "st_j s' \<le> st_j s"
        by simp_all
      with less.prems have "st_i s' \<le> length rSeq" "st_j s' \<le> length qSeq" by simp_all
      from less.hyps [OF d(1) this]
      obtain res where "traceback a index rSeq qSeq gap c table s' = Some res" ..
      with True Inr show ?thesis by (subst traceback.simps) simp
    qed
  qed
qed

subsection \<open>The table that is built is the recurrence\<close>

lemma at2_entry: "at2 a x y = Inr v \<Longrightarrow> v = entry a x y"
  by (simp add: entry_def at2_Inr)

lemma initRow_grid:
  assumes "initRow a index qSeq gap c j table = Inr t"
    and "gap = int (length a) - 1" and "j < c" and "c \<le> length table"
    and "\<forall>k \<le> j. table ! k = grid a index rSeq qSeq 0 k"
  shows "length t = length table \<and> (\<forall>k < c. t ! k = grid a index rSeq qSeq 0 k) \<and>
         (\<forall>p \<ge> c. t ! p = table ! p) \<and>
         (\<forall>k. j \<le> k \<and> k + 1 < c \<longrightarrow> (\<exists>v. at2 a gap (index (qSeq ! k)) = Inr v))"
  using assms
proof (induction a index qSeq gap c j table rule: initRow.induct)
  case (1 a index qSeq gap c j table)
  show ?case
  proof (cases "j + 1 < c")
    case False
    with "1.prems"(1) have "t = table" by (simp add: initRow_done)
    moreover from False "1.prems"(3) have "k \<le> j" if "k < c" for k using that by simp
    ultimately show ?thesis using "1.prems"(5) False by auto
  next
    case True
    from "1.prems"(1) True obtain v where v: "at2 a gap (index (qSeq ! j)) = Inr v"
      and rest: "initRow a index qSeq gap c (j + 1) (table[j + 1 := table ! j + v]) = Inr t"
      by (rule initRow_step)
    let ?t1 = "table[j + 1 := table ! j + v]"
    from at2_entry [OF v] "1.prems"(2) have ve: "v = entry a (int (length a) - 1) (index (qSeq ! j))"
      by simp
    from True "1.prems"(4) have len: "j + 1 < length table" by simp
    have inv: "\<forall>k \<le> j + 1. ?t1 ! k = grid a index rSeq qSeq 0 k"
    proof (intro allI impI)
      fix k assume "k \<le> j + 1"
      then consider "k \<le> j" | "k = Suc j" by linarith
      then show "?t1 ! k = grid a index rSeq qSeq 0 k"
      proof cases
        case 1 with "1.prems"(5) show ?thesis by simp
      next
        case 2 with len "1.prems"(5) ve show ?thesis by simp
      qed
    qed
    from "1.prems"(4) have len1: "c \<le> length ?t1" by simp
    note IH = "1.IH" [OF True v rest "1.prems"(2) True len1 inv]
    have fr: "\<forall>p \<ge> c. t ! p = table ! p"
    proof (intro allI impI)
      fix p assume "c \<le> p"
      with IH True show "t ! p = table ! p" by simp
    qed
    have ok: "\<forall>k. j \<le> k \<and> k + 1 < c \<longrightarrow> (\<exists>v. at2 a gap (index (qSeq ! k)) = Inr v)"
    proof (intro allI impI)
      fix k assume k: "j \<le> k \<and> k + 1 < c"
      then consider "k = j" | "j + 1 \<le> k" by linarith
      then show "\<exists>v. at2 a gap (index (qSeq ! k)) = Inr v"
      proof cases
        case 1 with v show ?thesis by blast
      next
        case 2 with IH k show ?thesis by blast
      qed
    qed
    from IH fr ok show ?thesis by simp
  qed
qed


lemma initCol_grid:
  assumes "initCol a index rSeq gap r c i table = Inr t"
    and "gap = int (length a) - 1" and "0 < i" and "i \<le> r" and "0 < c" and "r * c \<le> length table"
    and "\<forall>k < i. table ! (k * c) = grid a index rSeq qSeq k 0"
  shows "length t = length table \<and> (\<forall>k < r. t ! (k * c) = grid a index rSeq qSeq k 0) \<and>
         (\<forall>p. (\<forall>k. i \<le> k \<longrightarrow> p \<noteq> k * c) \<longrightarrow> t ! p = table ! p) \<and>
         (\<forall>k. i \<le> k \<and> k < r \<longrightarrow> (\<exists>v. at2 a (index (rSeq ! (k - 1))) gap = Inr v))"
  using assms
proof (induction a index rSeq gap r c i table rule: initCol.induct)
  case (1 a index rSeq gap r c i table)
  show ?case
  proof (cases "i < r")
    case False
    with "1.prems"(1) have "t = table" by (simp add: initCol_done)
    moreover from False "1.prems"(4) have "k < i" if "k < r" for k using that by simp
    ultimately show ?thesis using "1.prems"(7) False by auto
  next
    case True
    from "1.prems"(1) True obtain v where v: "at2 a (index (rSeq ! (i - 1))) gap = Inr v"
      and rest: "initCol a index rSeq gap r c (i + 1) (table[i * c := table ! ((i - 1) * c) + v]) = Inr t"
      by (rule initCol_step)
    let ?t1 = "table[i * c := table ! ((i - 1) * c) + v]"
    from at2_entry [OF v] "1.prems"(2) have ve: "v = entry a (index (rSeq ! (i - 1))) (int (length a) - 1)"
      by simp
    from "1.prems"(3) obtain i' where i': "i = Suc i'" by (cases i) simp_all
    from True have "Suc i \<le> r" by simp
    then have "Suc i * c \<le> r * c" by (rule mult_le_mono1)
    with "1.prems"(5,6) have len: "i * c < length table" by simp
    have inv: "\<forall>k < i + 1. ?t1 ! (k * c) = grid a index rSeq qSeq k 0"
    proof (intro allI impI)
      fix k assume "k < i + 1"
      then consider "k < i" | "k = i" by linarith
      then show "?t1 ! (k * c) = grid a index rSeq qSeq k 0"
      proof cases
        case 1
        with "1.prems"(5) have "k * c \<noteq> i * c" by simp
        with 1 "1.prems"(7) show ?thesis by simp
      next
        case 2
        from "1.prems"(7) i' have "table ! (i' * c) = grid a index rSeq qSeq i' 0" by simp
        with 2 len ve i' show ?thesis by simp
      qed
    qed
    from "1.prems"(6) have len1: "r * c \<le> length ?t1" by simp
    from True have le1: "i + 1 \<le> r" by simp
    have pos1: "0 < i + 1" by simp
    note IH = "1.IH" [OF True v rest "1.prems"(2) pos1 le1 "1.prems"(5) len1 inv]
    have fr: "\<forall>p. (\<forall>k. i \<le> k \<longrightarrow> p \<noteq> k * c) \<longrightarrow> t ! p = table ! p"
    proof (intro allI impI)
      fix p assume p: "\<forall>k. i \<le> k \<longrightarrow> p \<noteq> k * c"
      then have "\<forall>k. i + 1 \<le> k \<longrightarrow> p \<noteq> k * c" by simp
      with IH have "t ! p = ?t1 ! p" by blast
      moreover from p have "p \<noteq> i * c" by simp
      ultimately show "t ! p = table ! p" by simp
    qed
    have ok: "\<forall>k. i \<le> k \<and> k < r \<longrightarrow> (\<exists>v. at2 a (index (rSeq ! (k - 1))) gap = Inr v)"
    proof (intro allI impI)
      fix k assume k: "i \<le> k \<and> k < r"
      then consider "k = i" | "i + 1 \<le> k" by linarith
      then show "\<exists>v. at2 a (index (rSeq ! (k - 1))) gap = Inr v"
      proof cases
        case 1 with v show ?thesis by blast
      next
        case 2 with IH k show ?thesis by blast
      qed
    qed
    from IH fr ok show ?thesis by simp
  qed
qed




lemma grid_interior:
  "0 < i \<Longrightarrow> 0 < j \<Longrightarrow> grid a index rSeq qSeq i j =
     max_scores (grid a index rSeq qSeq (i - 1) (j - 1) + entry a (index (rSeq ! (i - 1))) (index (qSeq ! (j - 1))))
                (grid a index rSeq qSeq (i - 1) j + entry a (index (rSeq ! (i - 1))) (int (length a) - 1))
                (grid a index rSeq qSeq i (j - 1) + entry a (int (length a) - 1) (index (qSeq ! (j - 1))))"
  by (cases i; cases j) simp_all

lemma fillRow_grid:
  assumes "fillRow a index rSeq qSeq gap c i j table = Inr t"
    and "gap = int (length a) - 1"
    and "0 < i" and "0 < j" and "j \<le> c" and "i * c + c \<le> length table"
    and "0 \<le> index (rSeq ! (i - 1))"
    and "\<forall>k. 0 < k \<and> k < c \<longrightarrow> 0 \<le> index (qSeq ! (k - 1))"
    and "\<forall>k < c. table ! ((i - 1) * c + k) = grid a index rSeq qSeq (i - 1) k"
    and "\<forall>k < j. table ! (i * c + k) = grid a index rSeq qSeq i k"
  shows "length t = length table \<and> (\<forall>k < c. t ! (i * c + k) = grid a index rSeq qSeq i k) \<and>
         (\<forall>p. p < i * c + j \<or> i * c + c \<le> p \<longrightarrow> t ! p = table ! p)"
  using assms
proof (induction a index rSeq qSeq gap c i j table rule: fillRow.induct)
  case (1 a index rSeq qSeq gap c i j table)
  note run = "1.prems"(1) and gap = "1.prems"(2) and ipos = "1.prems"(3) and jpos = "1.prems"(4)
    and jc = "1.prems"(5) and len = "1.prems"(6) and rr = "1.prems"(7) and rq = "1.prems"(8)
    and prev = "1.prems"(9) and cur = "1.prems"(10)
  show ?case
  proof (cases "j < c")
    case False
    with run have "t = table" by (simp add: fillRow_done)
    moreover from False jc have "k < j" if "k < c" for k using that by simp
    ultimately show ?thesis using cur by auto
  next
    case True
    from rq jpos True have rqj: "0 \<le> index (qSeq ! (j - 1))" by blast
    from run True show ?thesis
    proof (cases rule: fillRow_step)
      case skip
      with rr rqj show ?thesis by simp
    next
      case (cell d u l)
      let ?p = "i * c + j"
      let ?v = "max_scores (table ! (?p - c - 1) + d) (table ! (?p - c) + u) (table ! (?p - 1) + l)"
      let ?t1 = "table[?p := ?v]"
      have d: "d = entry a (index (rSeq ! (i - 1))) (index (qSeq ! (j - 1)))"
        using at2_entry [OF cell(3)] .
      have u: "u = entry a (index (rSeq ! (i - 1))) (int (length a) - 1)"
        using at2_entry [OF cell(4)] gap by simp
      have l: "l = entry a (int (length a) - 1) (index (qSeq ! (j - 1)))"
        using at2_entry [OF cell(5)] gap by simp
      from True jpos have lt: "j - 1 < c" "j - 1 < j" by linarith+
      from prev lt(1) have "table ! ((i - 1) * c + (j - 1)) = grid a index rSeq qSeq (i - 1) (j - 1)"
        by blast
      then have p1: "table ! (?p - c - 1) = grid a index rSeq qSeq (i - 1) (j - 1)"
        unfolding cell_index(1) [OF ipos jpos] .
      from prev True have "table ! ((i - 1) * c + j) = grid a index rSeq qSeq (i - 1) j"
        by blast
      then have p2: "table ! (?p - c) = grid a index rSeq qSeq (i - 1) j"
        unfolding cell_index(2) [OF ipos] .
      from cur lt(2) have "table ! (i * c + (j - 1)) = grid a index rSeq qSeq i (j - 1)"
        by blast
      then have p3: "table ! (?p - 1) = grid a index rSeq qSeq i (j - 1)"
        unfolding cell_index(3) [OF jpos] .
      have v: "?v = grid a index rSeq qSeq i j"
        unfolding p1 p2 p3 d u l grid_interior [OF ipos jpos] ..
      from True len have plen: "?p < length table" by simp
      have n: "\<not> (index (rSeq ! (i - 1)) < 0 \<or> index (qSeq ! (j - 1)) < 0)"
        using cell(1,2) by simp
      have len1: "i * c + c \<le> length ?t1" using len by simp
      have prev1: "\<forall>k < c. ?t1 ! ((i - 1) * c + k) = grid a index rSeq qSeq (i - 1) k"
      proof (intro allI impI)
        fix k assume "k < c"
        with ipos have "(i - 1) * c + k \<noteq> ?p" by (cases i) simp_all
        with prev \<open>k < c\<close> show "?t1 ! ((i - 1) * c + k) = grid a index rSeq qSeq (i - 1) k" by simp
      qed
      have cur1: "\<forall>k < j + 1. ?t1 ! (i * c + k) = grid a index rSeq qSeq i k"
      proof (intro allI impI)
        fix k assume "k < j + 1"
        then consider "k < j" | "k = j" by linarith
        then show "?t1 ! (i * c + k) = grid a index rSeq qSeq i k"
        proof cases
          case 1 with cur show ?thesis by simp
        next
          case 2 with plen v show ?thesis by simp
        qed
      qed
      from True have jc1: "j + 1 \<le> c" by simp
      have jpos1: "0 < j + 1" by simp
      note IH = "1.IH"(2) [OF True refl refl n refl cell(3) cell(4) cell(5) cell(6) gap ipos jpos1 jc1
          len1 rr rq prev1 cur1]
      have fr: "\<forall>p. p < i * c + j \<or> i * c + c \<le> p \<longrightarrow> t ! p = table ! p"
      proof (intro allI impI)
        fix p assume p: "p < i * c + j \<or> i * c + c \<le> p"
        with True have q: "p < i * c + (j + 1) \<or> i * c + c \<le> p" and ne: "p \<noteq> ?p" by auto
        from IH q have "t ! p = ?t1 ! p" by blast
        with ne show "t ! p = table ! p" by simp
      qed
      from IH fr show ?thesis by simp
    qed
  qed
qed


lemma row_lt: "i' < i \<Longrightarrow> k < c \<Longrightarrow> i' * c + k < i * (c::nat)"
proof -
  assume "i' < i" and k: "k < c"
  then have "Suc i' \<le> i" by simp
  then have "Suc i' * c \<le> i * c" by (rule mult_le_mono1)
  with k show ?thesis by simp
qed

lemma row_le: "i' \<le> i \<Longrightarrow> i' * c \<le> i * (c::nat)"
  by (rule mult_le_mono1)

lemma fillRows_grid:
  assumes "fillRows a index rSeq qSeq gap r c i table = Inr t"
    and "gap = int (length a) - 1"
    and "0 < i" and "i \<le> r" and "0 < c" and "r * c \<le> length table"
    and "\<forall>k. 0 < k \<and> k < r \<longrightarrow> 0 \<le> index (rSeq ! (k - 1))"
    and "\<forall>k. 0 < k \<and> k < c \<longrightarrow> 0 \<le> index (qSeq ! (k - 1))"
    and "\<forall>i' < i. \<forall>k < c. table ! (i' * c + k) = grid a index rSeq qSeq i' k"
    and "\<forall>i' < r. table ! (i' * c) = grid a index rSeq qSeq i' 0"
  shows "length t = length table \<and>
         (\<forall>i' < r. \<forall>k < c. t ! (i' * c + k) = grid a index rSeq qSeq i' k)"
  using assms
proof (induction a index rSeq qSeq gap r c i table rule: fillRows.induct)
  case (1 a index rSeq qSeq gap r c i table)
  note run = "1.prems"(1) and gap = "1.prems"(2) and ipos = "1.prems"(3) and ir = "1.prems"(4)
    and cpos = "1.prems"(5) and len = "1.prems"(6) and rr = "1.prems"(7) and rq = "1.prems"(8)
    and rows = "1.prems"(9) and col = "1.prems"(10)
  show ?case
  proof (cases "i < r")
    case False
    with run have "t = table" by (simp add: fillRows_done)
    moreover from False ir have "i = r" by simp
    ultimately show ?thesis using rows by simp
  next
    case True
    from run True obtain t1 where t1: "fillRow a index rSeq qSeq gap c i 1 table = Inr t1"
      and rest: "fillRows a index rSeq qSeq gap r c (i + 1) t1 = Inr t"
      by (rule fillRows_step)
    from True have "Suc i \<le> r" by simp
    then have "Suc i * c \<le> r * c" by (rule mult_le_mono1)
    with len have len': "i * c + c \<le> length table" by simp
    from rr ipos True have ri: "0 \<le> index (rSeq ! (i - 1))" by blast
    from ipos have "i - 1 < i" by simp
    with rows have prev: "\<forall>k < c. table ! ((i - 1) * c + k) = grid a index rSeq qSeq (i - 1) k"
      by blast
    from col True have "table ! (i * c) = grid a index rSeq qSeq i 0" by blast
    then have cur: "\<forall>k < 1. table ! (i * c + k) = grid a index rSeq qSeq i k" by simp
    from cpos have c1: "1 \<le> c" by simp
    have one: "0 < (1::nat)" by simp
    note F = fillRow_grid [OF t1 gap ipos one c1 len' ri rq prev cur]
    from F have l1: "length t1 = length table" by blast
    from F have rowi: "\<forall>k < c. t1 ! (i * c + k) = grid a index rSeq qSeq i k" by blast
    from F have fr: "\<forall>p. p < i * c + 1 \<or> i * c + c \<le> p \<longrightarrow> t1 ! p = table ! p" by blast
    have rows1: "\<forall>i' < i + 1. \<forall>k < c. t1 ! (i' * c + k) = grid a index rSeq qSeq i' k"
    proof (intro allI impI)
      fix i' k assume "i' < i + 1" and k: "k < c"
      then consider "i' < i" | "i' = i" by linarith
      then show "t1 ! (i' * c + k) = grid a index rSeq qSeq i' k"
      proof cases
        case 1
        from row_lt [OF 1 k] have "i' * c + k < i * c + 1" by simp
        with fr have "t1 ! (i' * c + k) = table ! (i' * c + k)" by blast
        with rows 1 k show ?thesis by simp
      next
        case 2 with rowi k show ?thesis by simp
      qed
    qed
    have col1: "\<forall>i' < r. t1 ! (i' * c) = grid a index rSeq qSeq i' 0"
    proof (intro allI impI)
      fix i' assume i'r: "i' < r"
      consider "i' \<le> i" | "Suc i \<le> i'" by linarith
      then have "i' * c < i * c + 1 \<or> i * c + c \<le> i' * c"
      proof cases
        case 1 from row_le [OF 1, of c] show ?thesis by linarith
      next
        case 2 from row_le [OF 2, of c] show ?thesis unfolding mult_Suc by linarith
      qed
      with fr have "t1 ! (i' * c) = table ! (i' * c)" by blast
      with col i'r show "t1 ! (i' * c) = grid a index rSeq qSeq i' 0" by simp
    qed
    from len l1 have len1: "r * c \<le> length t1" by simp
    from True have ir1: "i + 1 \<le> r" by simp
    have ipos1: "0 < i + 1" by simp
    note IH = "1.IH" [OF True t1 rest gap ipos1 ir1 cpos len1 rr rq rows1 col1]
    with l1 show ?thesis by simp
  qed
qed


lemma buildTable_Inr:
  assumes "buildTable a index rSeq qSeq = Inr t"
  obtains t1 t2 where
    "initRow a index qSeq (int (length a) - 1) (length qSeq + 1) 0
       (replicate ((length rSeq + 1) * (length qSeq + 1)) 0) = Inr t1"
    "initCol a index rSeq (int (length a) - 1) (length rSeq + 1) (length qSeq + 1) 1 t1 = Inr t2"
    "fillRows a index rSeq qSeq (int (length a) - 1) (length rSeq + 1) (length qSeq + 1) 1 t2 = Inr t"
  using assms unfolding buildTable_def Let_def by (auto split: sum.splits)

lemma buildTable_grid:
  assumes ok: "buildTable a index rSeq qSeq = Inr t"
  shows "length t = (length rSeq + 1) * (length qSeq + 1) \<and>
         (\<forall>i \<le> length rSeq. \<forall>j \<le> length qSeq.
            t ! (i * (length qSeq + 1) + j) = grid a index rSeq qSeq i j) \<and>
         (\<forall>k < length rSeq. \<exists>v. at2 a (index (rSeq ! k)) (int (length a) - 1) = Inr v) \<and>
         (\<forall>k < length qSeq. \<exists>v. at2 a (int (length a) - 1) (index (qSeq ! k)) = Inr v)"
proof -
  let ?r = "length rSeq + 1" and ?c = "length qSeq + 1" and ?gap = "int (length a) - 1"
  let ?t0 = "replicate (?r * ?c) (0::score)"
  from ok obtain t1 t2 where
    t1: "initRow a index qSeq ?gap ?c 0 ?t0 = Inr t1"
    and t2: "initCol a index rSeq ?gap ?r ?c 1 t1 = Inr t2"
    and t3: "fillRows a index rSeq qSeq ?gap ?r ?c 1 t2 = Inr t"
    by (rule buildTable_Inr)
  have cpos: "0 < ?c" and rpos: "1 \<le> ?r" and one: "0 < (1::nat)" by simp_all
  have len0: "?c \<le> length ?t0" by simp
  have z0: "\<forall>k \<le> 0. ?t0 ! k = grid a index rSeq qSeq 0 k" by simp
  note A = initRow_grid [OF t1 refl cpos len0 z0]
  from A have l1: "length t1 = ?r * ?c" by simp
  from A have row0: "\<forall>k < ?c. t1 ! k = grid a index rSeq qSeq 0 k" by blast
  from A have lq: "\<forall>k. 0 \<le> k \<and> k + 1 < ?c \<longrightarrow> (\<exists>v. at2 a ?gap (index (qSeq ! k)) = Inr v)" by blast
  from l1 have len1: "?r * ?c \<le> length t1" by simp
  from row0 have z1: "\<forall>k < 1. t1 ! (k * ?c) = grid a index rSeq qSeq k 0" by simp
  note B = initCol_grid [OF t2 refl one rpos cpos len1 z1]
  from B l1 have l2: "length t2 = ?r * ?c" by simp
  from B have col0: "\<forall>k < ?r. t2 ! (k * ?c) = grid a index rSeq qSeq k 0" by blast
  from B have fr: "\<forall>p. (\<forall>k. 1 \<le> k \<longrightarrow> p \<noteq> k * ?c) \<longrightarrow> t2 ! p = t1 ! p" by blast
  from B have lr: "\<forall>k. 1 \<le> k \<and> k < ?r \<longrightarrow> (\<exists>v. at2 a (index (rSeq ! (k - 1))) ?gap = Inr v)" by blast
  have lq': "\<exists>v. at2 a ?gap (index (qSeq ! k)) = Inr v" if "k < length qSeq" for k
    using lq that by simp
  have lr': "\<exists>v. at2 a (index (rSeq ! k)) ?gap = Inr v" if "k < length rSeq" for k
  proof -
    from that have "1 \<le> Suc k \<and> Suc k < ?r" by simp
    with lr have "\<exists>v. at2 a (index (rSeq ! (Suc k - 1))) ?gap = Inr v" by blast
    then show ?thesis by simp
  qed
  have rr: "\<forall>k. 0 < k \<and> k < ?r \<longrightarrow> 0 \<le> index (rSeq ! (k - 1))"
  proof (intro allI impI)
    fix k assume "0 < k \<and> k < ?r"
    then have "k - 1 < length rSeq" by linarith
    from lr' [OF this] obtain v where "at2 a (index (rSeq ! (k - 1))) ?gap = Inr v" ..
    from at2_Inr [OF this] show "0 \<le> index (rSeq ! (k - 1))" by simp
  qed
  have rq: "\<forall>k. 0 < k \<and> k < ?c \<longrightarrow> 0 \<le> index (qSeq ! (k - 1))"
  proof (intro allI impI)
    fix k assume "0 < k \<and> k < ?c"
    then have "k - 1 < length qSeq" by linarith
    from lq' [OF this] obtain v where "at2 a ?gap (index (qSeq ! (k - 1))) = Inr v" ..
    from at2_Inr [OF this] show "0 \<le> index (qSeq ! (k - 1))" by simp
  qed
  have rows: "\<forall>i' < 1. \<forall>k < ?c. t2 ! (i' * ?c + k) = grid a index rSeq qSeq i' k"
  proof (intro allI impI)
    fix i' k assume i': "i' < (1::nat)" and k: "k < ?c"
    have "\<forall>m. 1 \<le> m \<longrightarrow> k \<noteq> m * ?c"
    proof (intro allI impI)
      fix m :: nat assume "1 \<le> m"
      from row_le [OF this, of ?c] have "?c \<le> m * ?c" by (simp only: mult_1)
      with k show "k \<noteq> m * ?c" by linarith
    qed
    with fr have "t2 ! k = t1 ! k" by blast
    with row0 k i' show "t2 ! (i' * ?c + k) = grid a index rSeq qSeq i' k" by simp
  qed
  from l2 have len2: "?r * ?c \<le> length t2" by simp
  note C = fillRows_grid [OF t3 refl one rpos cpos len2 rr rq rows col0]
  have cells: "\<forall>i \<le> length rSeq. \<forall>j \<le> length qSeq.
            t ! (i * ?c + j) = grid a index rSeq qSeq i j"
  proof (intro allI impI)
    fix i j assume "i \<le> length rSeq" "j \<le> length qSeq"
    then have "i < ?r" "j < ?c" by simp_all
    with C show "t ! (i * ?c + j) = grid a index rSeq qSeq i j" by blast
  qed
  from C l2 have "length t = ?r * ?c" by simp
  with cells lr' lq' show ?thesis by blast
qed

subsection \<open>The table is built when every index is in range\<close>

lemma at2_ok:
  assumes sq: "\<forall>row \<in> set a. length row = length a"
    and x: "0 \<le> x" "x < int (length a)" and y: "0 \<le> y" "y < int (length a)"
  shows "at2 a x y = Inr (entry a x y)"
proof -
  from x have "nat x < length a" by simp
  then have "a ! nat x \<in> set a" by (rule nth_mem)
  with sq have "length (a ! nat x) = length a" by blast
  with x y show ?thesis by (simp add: at2_def entry_def)
qed

lemma initRow_ok:
  assumes "\<forall>k. j \<le> k \<and> k + 1 < c \<longrightarrow> (\<exists>v. at2 a gap (index (qSeq ! k)) = Inr v)"
  shows "\<exists>t. initRow a index qSeq gap c j table = Inr t"
  using assms
proof (induction a index qSeq gap c j table rule: initRow.induct)
  case (1 a index qSeq gap c j table)
  show ?case
  proof (cases "j + 1 < c")
    case False
    then show ?thesis by (simp add: initRow_done)
  next
    case True
    with "1.prems" obtain v where v: "at2 a gap (index (qSeq ! j)) = Inr v" by blast
    from "1.prems" have "\<forall>k. j + 1 \<le> k \<and> k + 1 < c \<longrightarrow> (\<exists>v. at2 a gap (index (qSeq ! k)) = Inr v)"
      by simp
    from "1.IH" [OF True v this] obtain t where
      "initRow a index qSeq gap c (j + 1) (table[j + 1 := table ! j + v]) = Inr t" ..
    with True v show ?thesis by (subst initRow.simps) simp
  qed
qed

lemma initCol_ok:
  assumes "\<forall>k. i \<le> k \<and> k < r \<longrightarrow> (\<exists>v. at2 a (index (rSeq ! (k - 1))) gap = Inr v)"
  shows "\<exists>t. initCol a index rSeq gap r c i table = Inr t"
  using assms
proof (induction a index rSeq gap r c i table rule: initCol.induct)
  case (1 a index rSeq gap r c i table)
  show ?case
  proof (cases "i < r")
    case False
    then show ?thesis by (simp add: initCol_done)
  next
    case True
    with "1.prems" obtain v where v: "at2 a (index (rSeq ! (i - 1))) gap = Inr v" by blast
    from "1.prems" have "\<forall>k. i + 1 \<le> k \<and> k < r \<longrightarrow> (\<exists>v. at2 a (index (rSeq ! (k - 1))) gap = Inr v)"
      by simp
    from "1.IH" [OF True v this] obtain t where
      "initCol a index rSeq gap r c (i + 1) (table[i * c := table ! ((i - 1) * c) + v]) = Inr t" ..
    with True v show ?thesis by (subst initCol.simps) simp
  qed
qed

lemma fillRow_ok:
  assumes "\<forall>k. j \<le> k \<and> k < c \<longrightarrow>
             (\<exists>d u l. at2 a (index (rSeq ! (i - 1))) (index (qSeq ! (k - 1))) = Inr d \<and>
                      at2 a (index (rSeq ! (i - 1))) gap = Inr u \<and>
                      at2 a gap (index (qSeq ! (k - 1))) = Inr l)"
  shows "\<exists>t. fillRow a index rSeq qSeq gap c i j table = Inr t"
  using assms
proof (induction a index rSeq qSeq gap c i j table rule: fillRow.induct)
  case (1 a index rSeq qSeq gap c i j table)
  show ?case
  proof (cases "j < c")
    case False
    then show ?thesis by (simp add: fillRow_done)
  next
    case True
    from "1.prems" have next_ok: "\<forall>k. j + 1 \<le> k \<and> k < c \<longrightarrow>
             (\<exists>d u l. at2 a (index (rSeq ! (i - 1))) (index (qSeq ! (k - 1))) = Inr d \<and>
                      at2 a (index (rSeq ! (i - 1))) gap = Inr u \<and>
                      at2 a gap (index (qSeq ! (k - 1))) = Inr l)"
    proof (intro allI impI)
      fix k assume "j + 1 \<le> k \<and> k < c"
      then have "j \<le> k \<and> k < c" by simp
      with "1.prems" show "\<exists>d u l. at2 a (index (rSeq ! (i - 1))) (index (qSeq ! (k - 1))) = Inr d \<and>
                      at2 a (index (rSeq ! (i - 1))) gap = Inr u \<and>
                      at2 a gap (index (qSeq ! (k - 1))) = Inr l" by blast
    qed
    from "1.prems" True obtain d u l where
      d: "at2 a (index (rSeq ! (i - 1))) (index (qSeq ! (j - 1))) = Inr d"
      and u: "at2 a (index (rSeq ! (i - 1))) gap = Inr u"
      and l: "at2 a gap (index (qSeq ! (j - 1))) = Inr l"
      by blast
    from at2_Inr [OF d] have n: "\<not> (index (rSeq ! (i - 1)) < 0 \<or> index (qSeq ! (j - 1)) < 0)"
      by simp
    from "1.IH"(2) [OF True refl refl n refl d u l next_ok] obtain t where
      "fillRow a index rSeq qSeq gap c i (j + 1)
         (table[i * c + j := max_scores (table ! (i * c + j - c - 1) + d)
                                        (table ! (i * c + j - c) + u)
                                        (table ! (i * c + j - 1) + l)]) = Inr t" ..
    with n d u l show ?thesis unfolding fillRow_unfold [OF True] by simp
  qed
qed

lemma fillRows_ok:
  assumes "\<forall>i' k. i \<le> i' \<and> i' < r \<and> 1 \<le> k \<and> k < c \<longrightarrow>
             (\<exists>d u l. at2 a (index (rSeq ! (i' - 1))) (index (qSeq ! (k - 1))) = Inr d \<and>
                      at2 a (index (rSeq ! (i' - 1))) gap = Inr u \<and>
                      at2 a gap (index (qSeq ! (k - 1))) = Inr l)"
  shows "\<exists>t. fillRows a index rSeq qSeq gap r c i table = Inr t"
  using assms
proof (induction a index rSeq qSeq gap r c i table rule: fillRows.induct)
  case (1 a index rSeq qSeq gap r c i table)
  show ?case
  proof (cases "i < r")
    case False
    then show ?thesis by (simp add: fillRows_done)
  next
    case True
    with "1.prems" have "\<forall>k. 1 \<le> k \<and> k < c \<longrightarrow>
             (\<exists>d u l. at2 a (index (rSeq ! (i - 1))) (index (qSeq ! (k - 1))) = Inr d \<and>
                      at2 a (index (rSeq ! (i - 1))) gap = Inr u \<and>
                      at2 a gap (index (qSeq ! (k - 1))) = Inr l)"
    proof (intro allI impI)
      fix k assume "1 \<le> k \<and> k < c"
      with True have "i \<le> i \<and> i < r \<and> 1 \<le> k \<and> k < c" by simp
      with "1.prems" show "\<exists>d u l. at2 a (index (rSeq ! (i - 1))) (index (qSeq ! (k - 1))) = Inr d \<and>
                      at2 a (index (rSeq ! (i - 1))) gap = Inr u \<and>
                      at2 a gap (index (qSeq ! (k - 1))) = Inr l" by blast
    qed
    from fillRow_ok [OF this] obtain t1 where t1: "fillRow a index rSeq qSeq gap c i 1 table = Inr t1" ..
    from "1.prems" have "\<forall>i' k. i + 1 \<le> i' \<and> i' < r \<and> 1 \<le> k \<and> k < c \<longrightarrow>
             (\<exists>d u l. at2 a (index (rSeq ! (i' - 1))) (index (qSeq ! (k - 1))) = Inr d \<and>
                      at2 a (index (rSeq ! (i' - 1))) gap = Inr u \<and>
                      at2 a gap (index (qSeq ! (k - 1))) = Inr l)"
    proof (intro allI impI)
      fix i' k assume "i + 1 \<le> i' \<and> i' < r \<and> 1 \<le> k \<and> k < c"
      then have "i \<le> i' \<and> i' < r \<and> 1 \<le> k \<and> k < c" by simp
      with "1.prems" show "\<exists>d u l. at2 a (index (rSeq ! (i' - 1))) (index (qSeq ! (k - 1))) = Inr d \<and>
                      at2 a (index (rSeq ! (i' - 1))) gap = Inr u \<and>
                      at2 a gap (index (qSeq ! (k - 1))) = Inr l" by blast
    qed
    from "1.IH" [OF True t1 this] obtain t where
      "fillRows a index rSeq qSeq gap r c (i + 1) t1 = Inr t" ..
    with True t1 show ?thesis by (subst fillRows.simps) simp
  qed
qed

lemma buildTable_ok:
  assumes sq: "\<forall>row \<in> set a. length row = length a"
    and rng: "\<forall>x \<in> set rSeq \<union> set qSeq. 0 \<le> index x \<and> index x < int (length a)"
  shows "\<exists>t. buildTable a index rSeq qSeq = Inr t"
proof -
  let ?r = "length rSeq + 1" and ?c = "length qSeq + 1" and ?gap = "int (length a) - 1"
  have g: "0 \<le> ?gap \<and> ?gap < int (length a)" if "x \<in> set rSeq \<union> set qSeq" for x
  proof -
    from rng that have "0 \<le> index x \<and> index x < int (length a)" by blast
    then show ?thesis by linarith
  qed
  have rs: "at2 a (index (rSeq ! k)) ?gap = Inr (entry a (index (rSeq ! k)) ?gap)"
    if "k < length rSeq" for k
  proof -
    from that have m: "rSeq ! k \<in> set rSeq \<union> set qSeq" by simp
    from rng m have "0 \<le> index (rSeq ! k)" "index (rSeq ! k) < int (length a)" by blast+
    with g [OF m] sq show ?thesis by (simp add: at2_ok)
  qed
  have qs: "at2 a ?gap (index (qSeq ! k)) = Inr (entry a ?gap (index (qSeq ! k)))"
    if "k < length qSeq" for k
  proof -
    from that have m: "qSeq ! k \<in> set rSeq \<union> set qSeq" by simp
    from rng m have "0 \<le> index (qSeq ! k)" "index (qSeq ! k) < int (length a)" by blast+
    with g [OF m] sq show ?thesis by (simp add: at2_ok)
  qed
  have rq: "at2 a (index (rSeq ! k)) (index (qSeq ! k')) = Inr (entry a (index (rSeq ! k)) (index (qSeq ! k')))"
    if "k < length rSeq" "k' < length qSeq" for k k'
  proof -
    from that have m: "rSeq ! k \<in> set rSeq \<union> set qSeq" "qSeq ! k' \<in> set rSeq \<union> set qSeq" by simp_all
    from rng m have "0 \<le> index (rSeq ! k)" "index (rSeq ! k) < int (length a)"
      "0 \<le> index (qSeq ! k')" "index (qSeq ! k') < int (length a)" by blast+
    with sq show ?thesis by (simp add: at2_ok)
  qed
  have "\<forall>k. 0 \<le> k \<and> k + 1 < ?c \<longrightarrow> (\<exists>v. at2 a ?gap (index (qSeq ! k)) = Inr v)"
    using qs by simp
  from initRow_ok [OF this] obtain t1 where
    t1: "initRow a index qSeq ?gap ?c 0 (replicate (?r * ?c) 0) = Inr t1" ..
  have "\<forall>k. 1 \<le> k \<and> k < ?r \<longrightarrow> (\<exists>v. at2 a (index (rSeq ! (k - 1))) ?gap = Inr v)"
  proof (intro allI impI)
    fix k assume "1 \<le> k \<and> k < ?r"
    then have "k - 1 < length rSeq" by linarith
    from rs [OF this] show "\<exists>v. at2 a (index (rSeq ! (k - 1))) ?gap = Inr v" by blast
  qed
  from initCol_ok [OF this] obtain t2 where
    t2: "initCol a index rSeq ?gap ?r ?c 1 t1 = Inr t2" ..
  have "\<forall>i' k. 1 \<le> i' \<and> i' < ?r \<and> 1 \<le> k \<and> k < ?c \<longrightarrow>
             (\<exists>d u l. at2 a (index (rSeq ! (i' - 1))) (index (qSeq ! (k - 1))) = Inr d \<and>
                      at2 a (index (rSeq ! (i' - 1))) ?gap = Inr u \<and>
                      at2 a ?gap (index (qSeq ! (k - 1))) = Inr l)"
  proof (intro allI impI)
    fix i' k assume "1 \<le> i' \<and> i' < ?r \<and> 1 \<le> k \<and> k < ?c"
    then have b: "i' - 1 < length rSeq" "k - 1 < length qSeq" by linarith+
    from rq [OF b] rs [OF b(1)] qs [OF b(2)]
    show "\<exists>d u l. at2 a (index (rSeq ! (i' - 1))) (index (qSeq ! (k - 1))) = Inr d \<and>
                      at2 a (index (rSeq ! (i' - 1))) ?gap = Inr u \<and>
                      at2 a ?gap (index (qSeq ! (k - 1))) = Inr l" by blast
  qed
  from fillRows_ok [OF this] obtain t where
    t: "fillRows a index rSeq qSeq ?gap ?r ?c 1 t2 = Inr t" ..
  from t1 t2 t show ?thesis unfolding buildTable_def Let_def by simp
qed

subsection \<open>Segments with two empty intervals\<close>



subsection \<open>The modelled maximum\<close>

text \<open>\<open>max_scores\<close> returns one of its arguments, and none of them is greater in the signed order.\<close>

lemma max_scores_cases: "max_scores x y z = x \<or> max_scores x y z = y \<or> max_scores x y z = z"
  by (simp add: max_scores_def Let_def)

lemma max_scores_upper: "x \<le>s max_scores x y z \<and> y \<le>s max_scores x y z \<and> z \<le>s max_scores x y z"
  by (auto simp: max_scores_def Let_def word_sle_eq word_sless_alt)

subsection \<open>The call always returns\<close>

text \<open>
  A table is built only when every letter of both sequences has passed through the two
  boundary loops, which read the matrix at its index: so in the traceback no letter has a
  negative index, and the branch that leaves \<open>i\<close> and \<open>j\<close> as they are is never taken.
\<close>

lemma buildTable_recognized:
  assumes ok: "buildTable a index rSeq qSeq = Inr table"
  shows "(\<forall>k < length rSeq. 0 \<le> index (rSeq ! k)) \<and> (\<forall>k < length qSeq. 0 \<le> index (qSeq ! k))"
proof (intro conjI allI impI)
  note G = buildTable_grid [OF ok]
  fix k assume "k < length rSeq"
  with G obtain v where "at2 a (index (rSeq ! k)) (int (length a) - 1) = Inr v" by blast
  from at2_Inr [OF this] show "0 \<le> index (rSeq ! k)" by simp
next
  note G = buildTable_grid [OF ok]
  fix k assume "k < length qSeq"
  with G obtain v where "at2 a (int (length a) - 1) (index (qSeq ! k)) = Inr v" by blast
  from at2_Inr [OF this] show "0 \<le> index (qSeq ! k)" by simp
qed

lemma alignLetters_returns: "\<exists>res. alignLetters a rSeq qSeq alpha = Some res"
proof (cases "\<exists>row \<in> set a. int (length row) \<noteq> int (length a) - 1 + 1")
  case True
  then show ?thesis unfolding alignLetters_def Let_def by (simp only: if_True) simp
next
  case False
  show ?thesis
  proof (cases "buildTable a (LetterIndex alpha) rSeq qSeq")
    case (Inl e)
    with False show ?thesis unfolding alignLetters_def Let_def by (simp only: if_False) simp
  next
    case (Inr table)
    from buildTable_recognized [OF Inr]
    have r: "\<forall>k < length rSeq. 0 \<le> LetterIndex alpha (rSeq ! k)"
      and q: "\<forall>k < length qSeq. 0 \<le> LetterIndex alpha (qSeq ! k)" by blast+
    have init: "st_i (initState (length rSeq + 1) (length qSeq + 1)) \<le> length rSeq"
      "st_j (initState (length rSeq + 1) (length qSeq + 1)) \<le> length qSeq"
      by (simp_all add: initState_def)
    from traceback_terminates [OF r q init] obtain res where
      "traceback a (LetterIndex alpha) rSeq qSeq (int (length a) - 1) (length qSeq + 1) table
                (initState (length rSeq + 1) (length qSeq + 1)) = Some res" ..
    with False Inr show ?thesis unfolding alignLetters_def Let_def
      by (simp only: if_False) (simp split: sum.splits)
  qed
qed

subsection \<open>The call succeeds on a square matrix and indices in range\<close>

lemma tbStep_ok:
  assumes cells: "\<forall>i \<le> R. \<forall>j \<le> C. table ! (i * (C + 1) + j) = grid a index rSeq qSeq i j"
    and gap: "gap = int (length a) - 1"
    and i: "0 < st_i s" "st_i s \<le> R" and j: "0 < st_j s" "st_j s \<le> C"
    and d: "at2 a (index (rSeq ! (st_i s - 1))) (index (qSeq ! (st_j s - 1))) = Inr d"
    and u: "at2 a (index (rSeq ! (st_i s - 1))) gap = Inr u"
    and l: "at2 a gap (index (qSeq ! (st_j s - 1))) = Inr l"
  shows "\<exists>s'. tbStep a index rSeq qSeq gap (C + 1) table s = Inr s'"
proof -
  let ?c = "C + 1" and ?i = "st_i s" and ?j = "st_j s"
  let ?p = "?i * ?c + ?j"
  from i j have b: "?i - 1 \<le> R" "?j - 1 \<le> C" by simp_all
  from cells i(2) j(2) have c0: "table ! ?p = grid a index rSeq qSeq ?i ?j" by blast
  from cells b have "table ! ((?i - 1) * ?c + (?j - 1)) = grid a index rSeq qSeq (?i - 1) (?j - 1)" by blast
  then have c1: "table ! (?p - ?c - 1) = grid a index rSeq qSeq (?i - 1) (?j - 1)"
    unfolding cell_index(1) [OF i(1) j(1)] .
  from cells b(1) j(2) have "table ! ((?i - 1) * ?c + ?j) = grid a index rSeq qSeq (?i - 1) ?j" by blast
  then have c2: "table ! (?p - ?c) = grid a index rSeq qSeq (?i - 1) ?j"
    unfolding cell_index(2) [OF i(1)] .
  from cells i(2) b(2) have "table ! (?i * ?c + (?j - 1)) = grid a index rSeq qSeq ?i (?j - 1)" by blast
  then have c3: "table ! (?p - 1) = grid a index rSeq qSeq ?i (?j - 1)"
    unfolding cell_index(3) [OF j(1)] .
  have de: "d = entry a (index (rSeq ! (?i - 1))) (index (qSeq ! (?j - 1)))"
    using at2_entry [OF d] .
  have ue: "u = entry a (index (rSeq ! (?i - 1))) (int (length a) - 1)"
    using at2_entry [OF u] gap by simp
  have le: "l = entry a (int (length a) - 1) (index (qSeq ! (?j - 1)))"
    using at2_entry [OF l] gap by simp
  have "table ! ?p = max_scores (table ! (?p - ?c - 1) + d) (table ! (?p - ?c) + u) (table ! (?p - 1) + l)"
    unfolding c0 c1 c2 c3 de ue le by (rule grid_interior [OF i(1) j(1)])
  with max_scores_cases [of "table ! (?p - ?c - 1) + d" "table ! (?p - ?c) + u" "table ! (?p - 1) + l"]
  have m: "table ! ?p = table ! (?p - ?c - 1) + d \<or> table ! ?p = table ! (?p - ?c) + u \<or>
           table ! ?p = table ! (?p - 1) + l" by simp
  from at2_Inr [OF d] have n: "\<not> (index (rSeq ! (?i - 1)) < 0 \<or> index (qSeq ! (?j - 1)) < 0)"
    by simp
  from m show ?thesis
    unfolding tbStep_def Let_def using n d u l by auto
qed

lemma traceback_ok:
  assumes cells: "\<forall>i \<le> length rSeq. \<forall>j \<le> length qSeq.
                    table ! (i * (length qSeq + 1) + j) = grid a index rSeq qSeq i j"
    and gap: "gap = int (length a) - 1"
    and look: "\<forall>i j. 0 < i \<and> i \<le> length rSeq \<and> 0 < j \<and> j \<le> length qSeq \<longrightarrow>
        (\<exists>d u l. at2 a (index (rSeq ! (i - 1))) (index (qSeq ! (j - 1))) = Inr d \<and>
                 at2 a (index (rSeq ! (i - 1))) gap = Inr u \<and>
                 at2 a gap (index (qSeq ! (j - 1))) = Inr l)"
  shows "st_i s \<le> length rSeq \<Longrightarrow> st_j s \<le> length qSeq \<Longrightarrow>
         \<exists>st. traceback a index rSeq qSeq gap (length qSeq + 1) table s = Some (Inr st)"
proof (induction "st_i s + st_j s" arbitrary: s rule: less_induct)
  case less
  show ?case
  proof (cases "0 < st_i s \<and> 0 < st_j s")
    case False
    then show ?thesis by (subst traceback.simps) auto
  next
    case True
    with less.prems look obtain d u l where
      d: "at2 a (index (rSeq ! (st_i s - 1))) (index (qSeq ! (st_j s - 1))) = Inr d"
      and u: "at2 a (index (rSeq ! (st_i s - 1))) gap = Inr u"
      and l: "at2 a gap (index (qSeq ! (st_j s - 1))) = Inr l" by blast
    from True have p: "0 < st_i s" "0 < st_j s" by simp_all
    from tbStep_ok [OF cells gap p(1) less.prems(1) p(2) less.prems(2) d u l]
    obtain s' where s': "tbStep a index rSeq qSeq gap (length qSeq + 1) table s = Inr s'" ..
    from at2_Inr [OF d] have "0 \<le> index (rSeq ! (st_i s - 1))" "0 \<le> index (qSeq ! (st_j s - 1))"
      by simp_all
    with tbStep_decreases [OF s' p]
    have dec: "st_i s' + st_j s' < st_i s + st_j s" "st_i s' \<le> st_i s" "st_j s' \<le> st_j s"
      by simp_all
    with less.prems have "st_i s' \<le> length rSeq" "st_j s' \<le> length qSeq" by simp_all
    from less.hyps [OF dec(1) this] obtain st where
      "traceback a index rSeq qSeq gap (length qSeq + 1) table s' = Some (Inr st)" ..
    with True s' show ?thesis by (subst traceback.simps) simp
  qed
qed

lemma alignLetters_succeeds:
  assumes sq: "\<forall>row \<in> set a. length row = length a"
    and rng: "\<forall>x \<in> set rSeq \<union> set qSeq. 0 \<le> LetterIndex alpha x \<and> LetterIndex alpha x < int (length a)"
  shows "\<exists>aln. alignLetters a rSeq qSeq alpha = Some (Inr aln)"
proof -
  let ?index = "LetterIndex alpha" and ?gap = "int (length a) - 1"
  from buildTable_ok [OF sq rng] obtain table where tab: "buildTable a ?index rSeq qSeq = Inr table" ..
  note G = buildTable_grid [OF tab]
  from G have cells: "\<forall>i \<le> length rSeq. \<forall>j \<le> length qSeq.
      table ! (i * (length qSeq + 1) + j) = grid a ?index rSeq qSeq i j" by blast
  have look: "\<forall>i j. 0 < i \<and> i \<le> length rSeq \<and> 0 < j \<and> j \<le> length qSeq \<longrightarrow>
        (\<exists>d u l. at2 a (?index (rSeq ! (i - 1))) (?index (qSeq ! (j - 1))) = Inr d \<and>
                 at2 a (?index (rSeq ! (i - 1))) ?gap = Inr u \<and>
                 at2 a ?gap (?index (qSeq ! (j - 1))) = Inr l)"
  proof (intro allI impI)
    fix i j assume h: "0 < i \<and> i \<le> length rSeq \<and> 0 < j \<and> j \<le> length qSeq"
    then have b: "i - 1 < length rSeq" "j - 1 < length qSeq" by linarith+
    then have m: "rSeq ! (i - 1) \<in> set rSeq \<union> set qSeq" "qSeq ! (j - 1) \<in> set rSeq \<union> set qSeq"
      by simp_all
    from rng m have x: "0 \<le> ?index (rSeq ! (i - 1))" "?index (rSeq ! (i - 1)) < int (length a)"
      and y: "0 \<le> ?index (qSeq ! (j - 1))" "?index (qSeq ! (j - 1)) < int (length a)" by blast+
    from x have g: "0 \<le> ?gap" "?gap < int (length a)" by linarith+
    from at2_ok [OF sq x y] at2_ok [OF sq x g] at2_ok [OF sq g y]
    show "\<exists>d u l. at2 a (?index (rSeq ! (i - 1))) (?index (qSeq ! (j - 1))) = Inr d \<and>
                 at2 a (?index (rSeq ! (i - 1))) ?gap = Inr u \<and>
                 at2 a ?gap (?index (qSeq ! (j - 1))) = Inr l" by blast
  qed
  have init: "st_i (initState (length rSeq + 1) (length qSeq + 1)) \<le> length rSeq"
    "st_j (initState (length rSeq + 1) (length qSeq + 1)) \<le> length qSeq"
    by (simp_all add: initState_def)
  from traceback_ok [OF cells refl look init] obtain st where
    "traceback a ?index rSeq qSeq ?gap (length qSeq + 1) table
       (initState (length rSeq + 1) (length qSeq + 1)) = Some (Inr st)" ..
  moreover from sq have "\<not> (\<exists>row \<in> set a. int (length row) \<noteq> int (length a) - 1 + 1)" by simp
  ultimately show ?thesis using tab unfolding alignLetters_def Let_def
    by (simp only: if_False) simp
qed

section \<open>Results\<close>

text \<open>
  C7. Aligning ACGT with itself over the alphabet A, C, G, T, with match 1, mismatch 0 and
  gap 0, returns exactly one segment: reference [0,4), query [0,4), score 4.
\<close>

theorem self_alignment_ACGT:
  "alignLetters identityMatrix [65, 67, 71, 84] [65, 67, 71, 84] dna = Some (Inr [segment 0 4 0 4 4])"
  by code_simp

text \<open>
  C5 (as amended). The call fails with the error "matrix not square" exactly when some row
  of the matrix has a length other than the number of rows. The number of rows is not
  compared with the size of the alphabet. The error is the whole result: it is returned
  before the sequences, the alphabet or a table are touched.
\<close>

theorem matrix_validation:
  "alignLetters a rSeq qSeq alpha = Some (Inl ErrMatrixNotSquare) \<longleftrightarrow> (\<exists>row \<in> set a. length row \<noteq> length a)"
proof -
  have sq: "(\<exists>row \<in> set a. int (length row) \<noteq> int (length a) - 1 + 1) \<longleftrightarrow> (\<exists>row \<in> set a. length row \<noteq> length a)"
    by auto
  show ?thesis
  proof (cases "\<exists>row \<in> set a. length row \<noteq> length a")
    case True
    with sq have "\<exists>row \<in> set a. int (length row) \<noteq> int (length a) - 1 + 1" by simp
    then have "alignLetters a rSeq qSeq alpha = Some (Inl ErrMatrixNotSquare)"
      unfolding alignLetters_def Let_def by (simp only: if_True)
    with True show ?thesis by simp
  next
    case False
    with sq have n: "\<not> (\<exists>row \<in> set a. int (length row) \<noteq> int (length a) - 1 + 1)" by simp
    have "alignLetters a rSeq qSeq alpha \<noteq> Some (Inl ErrMatrixNotSquare)"
      unfolding alignLetters_def Let_def
      apply (simp only: n if_False)
      apply (auto split: sum.splits option.splits dest: buildTable_Inl traceback_Inl)
      done
    with False show ?thesis by simp
  qed
qed

theorem matrix_validation_witness:
  "alignLetters [[1, 0, 0, 0], [0, 1, 0, 0], [0, 0, 0, 0]] [65] [65] dna = Some (Inl ErrMatrixNotSquare)"
  using matrix_validation [of "[[1, 0, 0, 0], [0, 1, 0, 0], [0, 0, 0, 0]]" "[65]" "[65]" dna]
  by simp

text \<open>
  C5 as stated fails: a square matrix with 2 rows is accepted for an alphabet of 4 letters,
  whose matrix should have 5 rows.
\<close>

theorem matrix_size_counterexample:
  "length smallMatrix \<noteq> Len dna + 1 \<and> alignLetters smallMatrix [65] [65] dna = Some (Inr [segment 0 1 0 1 1])"
  by (simp add: smallMatrix_def dna_def) code_simp

text \<open>
  C8. In a traceback state with \<open>i > 0\<close> and \<open>j > 0\<close> whose three candidates (diagonal, up,
  left) are defined and all differ from the stored value, the loop ends in the panic
  "no path" at that row and column: no segment list is returned.
\<close>

theorem no_path_is_fatal:
  assumes pos: "0 < st_i st" "0 < st_j st"
    and d: "at2 a (index (rSeq ! (st_i st - 1))) (index (qSeq ! (st_j st - 1))) = Inr d"
    and u: "at2 a (index (rSeq ! (st_i st - 1))) gap = Inr u"
    and l: "at2 a gap (index (qSeq ! (st_j st - 1))) = Inr l"
    and nd: "table ! (st_i st * c + st_j st) \<noteq> table ! (st_i st * c + st_j st - c - 1) + d"
    and nu: "table ! (st_i st * c + st_j st) \<noteq> table ! (st_i st * c + st_j st - c) + u"
    and nl: "table ! (st_i st * c + st_j st) \<noteq> table ! (st_i st * c + st_j st - 1) + l"
  shows "traceback a index rSeq qSeq gap c table st = Some (Inl (PanicNoPath (st_i st) (st_j st)))"
proof -
  from at2_Inr [OF d] have rec: "\<not> (index (rSeq ! (st_i st - 1)) < 0 \<or> index (qSeq ! (st_j st - 1)) < 0)"
    by simp
  have "tbStep a index rSeq qSeq gap c table st = Inl (PanicNoPath (st_i st) (st_j st))"
    unfolding tbStep_def Let_def using rec d u l nd nu nl by simp
  with pos show ?thesis
    by (subst traceback.simps) simp
qed

theorem no_path_is_fatal_witness:
  "traceback identityMatrix dnaIndex [65] [65] 4 2 [0, 0, 0, 5] (initState 2 2) = Some (Inl (PanicNoPath 1 1))"
  using no_path_is_fatal [of "initState 2 2" identityMatrix dnaIndex "[65]" "[65]" 1 4 0 0 "[0, 0, 0, 5]" 2]
  by (simp add: initState_def at2_def identityMatrix_def dnaIndex_def)

text \<open>
  C2. In an iteration of the traceback whose three candidates are defined, the diagonal move
  is taken when the diagonal candidate equals the stored value, whatever the other two are;
  the up move when the diagonal one differs and the up one is equal; the left move only when
  both differ. For reference AA and query A with match 1, mismatch 0 and gap 0 the table is
  0 0 / 0 1 / 0 1; at cell (2,1) the diagonal and the up candidate both give 1, and the
  result is that of the diagonal move: the segment [1,2) x [0,1) with score 1 after the
  leading block [0,1) x [0,0).
\<close>

theorem tie_break_order:
  assumes d: "at2 a (index (rSeq ! (st_i st - 1))) (index (qSeq ! (st_j st - 1))) = Inr d"
    and u: "at2 a (index (rSeq ! (st_i st - 1))) gap = Inr u"
    and l: "at2 a gap (index (qSeq ! (st_j st - 1))) = Inr l"
    and p: "p = st_i st * c + st_j st"
  shows "(table ! p = table ! (p - c - 1) + d \<longrightarrow>
            (\<exists>st'. tbStep a index rSeq qSeq gap c table st = Inr st' \<and> st_last st' = Diag \<and>
                   st_i st' = st_i st - 1 \<and> st_j st' = st_j st - 1)) \<and>
         (table ! p \<noteq> table ! (p - c - 1) + d \<and> table ! p = table ! (p - c) + u \<longrightarrow>
            (\<exists>st'. tbStep a index rSeq qSeq gap c table st = Inr st' \<and> st_last st' = Up \<and>
                   st_i st' = st_i st - 1 \<and> st_j st' = st_j st)) \<and>
         (table ! p \<noteq> table ! (p - c - 1) + d \<and> table ! p \<noteq> table ! (p - c) + u \<and>
          table ! p = table ! (p - 1) + l \<longrightarrow>
            (\<exists>st'. tbStep a index rSeq qSeq gap c table st = Inr st' \<and> st_last st' = Left \<and>
                   st_i st' = st_i st \<and> st_j st' = st_j st - 1)) \<and>
         buildTable identityMatrix dnaIndex [65, 65] [65] = Inr [0, 0, 0, 1, 0, 1] \<and>
         alignLetters identityMatrix [65, 65] [65] dna = Some (Inr [segment 0 1 0 0 0, segment 1 2 0 1 1])"
proof -
  from at2_Inr [OF d] have rec: "\<not> (index (rSeq ! (st_i st - 1)) < 0 \<or> index (qSeq ! (st_j st - 1)) < 0)"
    by simp
  have 1: "table ! p = table ! (p - c - 1) + d \<longrightarrow>
            (\<exists>st'. tbStep a index rSeq qSeq gap c table st = Inr st' \<and> st_last st' = Diag \<and>
                   st_i st' = st_i st - 1 \<and> st_j st' = st_j st - 1)"
    unfolding tbStep_def Let_def closeSegment_def using rec d p by simp
  have 2: "table ! p \<noteq> table ! (p - c - 1) + d \<and> table ! p = table ! (p - c) + u \<longrightarrow>
            (\<exists>st'. tbStep a index rSeq qSeq gap c table st = Inr st' \<and> st_last st' = Up \<and>
                   st_i st' = st_i st - 1 \<and> st_j st' = st_j st)"
    unfolding tbStep_def Let_def closeSegment_def using rec d u p by simp
  have 3: "table ! p \<noteq> table ! (p - c - 1) + d \<and> table ! p \<noteq> table ! (p - c) + u \<and>
          table ! p = table ! (p - 1) + l \<longrightarrow>
            (\<exists>st'. tbStep a index rSeq qSeq gap c table st = Inr st' \<and> st_last st' = Left \<and>
                   st_i st' = st_i st \<and> st_j st' = st_j st - 1)"
    using rec d u l p by (auto simp: tbStep_def Let_def closeSegment_def)
  have 4: "buildTable identityMatrix dnaIndex [65, 65] [65] = Inr [0, 0, 0, 1, 0, 1]"
    by code_simp
  have 5: "alignLetters identityMatrix [65, 65] [65] dna = Some (Inr [segment 0 1 0 0 0, segment 1 2 0 1 1])"
    by code_simp
  from 1 2 3 4 5 show ?thesis by blast
qed

theorem tie_break_order_witness:
  "[0, 0, 0, 1, 0, 1 :: score] ! 5 = [0, 0, 0, 1, 0, 1] ! 2 + 1 \<and>
   [0, 0, 0, 1, 0, 1 :: score] ! 5 = [0, 0, 0, 1, 0, 1] ! 3 + 0 \<and>
   (\<exists>st'. tbStep identityMatrix dnaIndex [65, 65] [65] 4 2 [0, 0, 0, 1, 0, 1] (initState 3 2) = Inr st' \<and>
          st_last st' = Diag \<and> st_i st' = 1 \<and> st_j st' = 0)"
  using tie_break_order [of identityMatrix dnaIndex "[65, 65]" "initState 3 2" "[65]" 1 4 0 0 5 2 "[0, 0, 0, 1, 0, 1]"]
  by (simp add: initState_def at2_def identityMatrix_def dnaIndex_def)

text \<open>
  C6 (as amended). The traceback starts with the last direction set to the diagonal (line
  121: \<^verbatim>\<open>score, last := 0, diag\<close>). After the first iteration from the last cell the
  list of segments is empty when the move was diagonal; when the move was up or left it
  holds one segment, with score 0 and two empty intervals at the ends of the sequences. In
  the statement \<open>r\<close> and \<open>c\<close> are the lengths plus one, as in the source, so that this
  segment is [r-1,r-1) x [c-1,c-1).
\<close>

theorem first_move_closes_segment:
  "st_last (initState r c) = Diag \<and>
   (tbStep a index rSeq qSeq gap c table (initState r c) = Inr st' \<longrightarrow>
      st_aln st' = (if st_last st' = Diag then [] else [segment (r - 1) (r - 1) (c - 1) (c - 1) 0]))"
  by (auto simp: tbStep_def Let_def closeSegment_def initState_def split: if_splits sum.splits)

theorem first_move_closes_segment_witness:
  "tbStep gapMatrix dnaIndex [65, 67] [65] 4 2 [0, - 1, - 1, 1, - 2, 0] (initState 3 2) =
     Inr \<lparr>st_i = 1, st_j = 1, st_maxI = 2, st_maxJ = 1, st_score = - 1, st_last = Up,
          st_aln = [segment 2 2 1 1 0]\<rparr> \<and>
   st_aln \<lparr>st_i = 1, st_j = 1, st_maxI = 2, st_maxJ = 1, st_score = - 1 :: score, st_last = Up,
          st_aln = [segment 2 2 1 1 0]\<rparr> = [segment (3 - 1) (3 - 1) (2 - 1) (2 - 1) 0]"
proof -
  have s: "tbStep gapMatrix dnaIndex [65, 67] [65] 4 2 [0, - 1, - 1, 1, - 2, 0] (initState 3 2) =
     Inr \<lparr>st_i = 1, st_j = 1, st_maxI = 2, st_maxJ = 1, st_score = - 1, st_last = Up,
          st_aln = [segment 2 2 1 1 0]\<rparr>"
    by code_simp
  from first_move_closes_segment [of 3 2 gapMatrix dnaIndex "[65, 67]" "[65]" 4 "[0, - 1, - 1, 1, - 2, 0]"
      "\<lparr>st_i = 1, st_j = 1, st_maxI = 2, st_maxJ = 1, st_score = - 1, st_last = Up, st_aln = [segment 2 2 1 1 0]\<rparr>"] s
  show ?thesis by simp
qed

text \<open>
  C6 as stated fails: aligning A with A, the first move is diagonal and no segment is
  emitted by it; the result has the single segment [0,1) x [0,1).
\<close>

theorem first_move_diag_counterexample:
  "st_last (initState 2 2) = Diag \<and>
   buildTable identityMatrix dnaIndex [65] [65] = Inr [0, 0, 0, 1] \<and>
   tbStep identityMatrix dnaIndex [65] [65] 4 2 [0, 0, 0, 1] (initState 2 2) =
     Inr \<lparr>st_i = 0, st_j = 0, st_maxI = 1, st_maxJ = 1, st_score = 1, st_last = Diag, st_aln = []\<rparr> \<and>
   alignLetters identityMatrix [65] [65] dna = Some (Inr [segment 0 1 0 1 1])"
  by code_simp

text \<open>
  C4. Whenever the call returns a list of segments, the reference intervals of the list, in
  the order returned, start at 0, each starts where the one before it ends, none ends before
  it starts, and the last ends at the length of the reference; so every position of the
  reference lies in exactly one of them. The same holds of the query intervals and the
  query. The order is that of the list after the reversal loop of lines 193 to 195.
\<close>

theorem segments_partition:
  assumes ok: "alignLetters a rSeq qSeq alpha = Some (Inr aln)"
  shows "tiles 0 (length rSeq) (map fa aln) \<and> tiles 0 (length qSeq) (map fb aln) \<and>
         (\<forall>x < length rSeq. length (filter (covers x) (map fa aln)) = 1) \<and>
         (\<forall>x < length qSeq. length (filter (covers x) (map fb aln)) = 1)"
proof -
  from ok obtain table st where
    run: "traceback a (LetterIndex alpha) rSeq qSeq (int (length a) - 1) (length qSeq + 1) table
       (initState (length rSeq + 1) (length qSeq + 1)) = Some (Inr st)"
    and aln: "aln = finish (length qSeq + 1) table st"
    by (rule alignLetters_Inr)
  let ?I = "\<lambda>s. st_i s \<le> st_maxI s \<and> tiles (st_maxI s) (length rSeq) (map fa (rev (st_aln s))) \<and>
                st_j s \<le> st_maxJ s \<and> tiles (st_maxJ s) (length qSeq) (map fb (rev (st_aln s)))"
  have init: "?I (initState (length rSeq + 1) (length qSeq + 1))"
    by (simp add: initState_def)
  have step: "\<forall>s s'. ?I s \<and> 0 < st_i s \<and> 0 < st_j s \<and>
      tbStep a (LetterIndex alpha) rSeq qSeq (int (length a) - 1) (length qSeq + 1) table s = Inr s'
      \<longrightarrow> ?I s'"
  proof (intro allI impI)
    fix s s'
    assume h: "?I s \<and> 0 < st_i s \<and> 0 < st_j s \<and>
      tbStep a (LetterIndex alpha) rSeq qSeq (int (length a) - 1) (length qSeq + 1) table s = Inr s'"
    then have "?I s"
      and "tbStep a (LetterIndex alpha) rSeq qSeq (int (length a) - 1) (length qSeq + 1) table s = Inr s'"
      by blast+
    then show "?I s'" by (rule tbStep_tiles)
  qed
  from traceback_rule [where I = ?I, OF run init step]
  have I: "?I st" and z: "st_i st = 0 \<or> st_j st = 0" by simp_all
  have r: "tiles 0 (length rSeq) (map fa aln)"
    using I z unfolding aln finish_rev by (auto simp: segment_def)
  have q: "tiles 0 (length qSeq) (map fb aln)"
    using I z unfolding aln finish_rev by (auto simp: segment_def)
  from tiles_count [OF r] tiles_count [OF q] r q show ?thesis by simp
qed

theorem segments_partition_witness:
  "tiles 0 2 (map fa [segment 0 1 0 1 1, segment 1 2 1 1 (- 1), segment 2 2 1 1 0]) \<and>
   tiles 0 1 (map fb [segment 0 1 0 1 1, segment 1 2 1 1 (- 1), segment 2 2 1 1 0]) \<and>
   length (filter (covers 0) (map fa [segment 0 1 0 1 1, segment 1 2 1 1 (- 1), segment 2 2 1 1 0])) = 1 \<and>
   length (filter (covers 1) (map fa [segment 0 1 0 1 1, segment 1 2 1 1 (- 1), segment 2 2 1 1 0])) = 1 \<and>
   length (filter (covers 0) (map fb [segment 0 1 0 1 1, segment 1 2 1 1 (- 1), segment 2 2 1 1 0])) = 1"
proof -
  have ex: "alignLetters gapMatrix [65, 67] [65] dna =
              Some (Inr [segment 0 1 0 1 1, segment 1 2 1 1 (- 1), segment 2 2 1 1 0])"
    by code_simp
  from segments_partition [OF ex] show ?thesis by simp
qed

text \<open>
  C3. Whenever the call returns a list of segments, the scores of the segments of the list
  (the leading block included, when there is one) add up to the last cell of the table,
  \<open>G[r][c]\<close>, which lies at index \<open>r * (c + 1) + c\<close> of the flat table for a reference
  of length \<open>r\<close> and a query of length \<open>c\<close>. Scores are Go integers, and so is the sum.
\<close>

theorem score_conservation:
  assumes ok: "alignLetters a rSeq qSeq alpha = Some (Inr aln)"
    and tab: "buildTable a (LetterIndex alpha) rSeq qSeq = Inr table"
  shows "sum_list (map score aln) = table ! (length rSeq * (length qSeq + 1) + length qSeq)"
proof -
  from ok obtain table' st where
    tab': "buildTable a (LetterIndex alpha) rSeq qSeq = Inr table'"
    and run': "traceback a (LetterIndex alpha) rSeq qSeq (int (length a) - 1) (length qSeq + 1) table'
       (initState (length rSeq + 1) (length qSeq + 1)) = Some (Inr st)"
    and aln': "aln = finish (length qSeq + 1) table' st"
    by (rule alignLetters_Inr)
  from tab tab' have same: "table' = table" by simp
  note run = run' [unfolded same] and aln = aln' [unfolded same]
  let ?c = "length qSeq + 1"
  let ?K = "table ! (length rSeq * ?c + length qSeq)"
  let ?I = "\<lambda>s. sum_list (map score (st_aln s)) + st_score s + table ! (st_i s * ?c + st_j s) = ?K"
  have init: "?I (initState (length rSeq + 1) ?c)"
    by (simp add: initState_def)
  have step: "\<forall>s s'. ?I s \<and> 0 < st_i s \<and> 0 < st_j s \<and>
      tbStep a (LetterIndex alpha) rSeq qSeq (int (length a) - 1) ?c table s = Inr s'
      \<longrightarrow> ?I s'"
  proof (intro allI impI)
    fix s s'
    assume h: "?I s \<and> 0 < st_i s \<and> 0 < st_j s \<and>
      tbStep a (LetterIndex alpha) rSeq qSeq (int (length a) - 1) ?c table s = Inr s'"
    then have "?I s" "0 < st_i s" "0 < st_j s"
      and "tbStep a (LetterIndex alpha) rSeq qSeq (int (length a) - 1) ?c table s = Inr s'"
      by blast+
    then show "?I s'" by (rule tbStep_score)
  qed
  from traceback_rule [where I = ?I, OF run init step]
  have I: "?I st" and z: "st_i st = 0 \<or> st_j st = 0" by simp_all
  have sum: "sum_list (map score aln) =
      sum_list (map score (st_aln st)) + st_score st +
      (if st_i st \<noteq> st_j st then table ! (st_i st * ?c + st_j st) else 0)"
    unfolding aln finish_rev by (simp add: segment_def sum_list_map_rev algebra_simps)
  show ?thesis
  proof (cases "st_i st = st_j st")
    case False
    with sum I show ?thesis by simp
  next
    case True
    with z have "st_i st = 0" "st_j st = 0" by auto
    with I buildTable_nth0 [OF tab] sum show ?thesis by simp
  qed
qed

theorem score_conservation_witness:
  "sum_list (map score [segment 0 1 0 1 1, segment 1 2 1 1 (- 1), segment 2 2 1 1 0]) =
   [0, - 1, - 1, 1, - 2, 0] ! (length [65 :: Letter, 67] * (length [65 :: Letter] + 1) + length [65 :: Letter])"
proof -
  have ex: "alignLetters gapMatrix [65, 67] [65] dna =
              Some (Inr [segment 0 1 0 1 1, segment 1 2 1 1 (- 1), segment 2 2 1 1 0])"
    by code_simp
  have tab: "buildTable gapMatrix (LetterIndex dna) [65, 67] [65] = Inr [0, - 1, - 1, 1, - 2, 0]"
    by code_simp
  from score_conservation [OF ex tab] show ?thesis .
qed

text \<open>
  C9. When every letter of both sequences has a non-negative index, the call returns,
  whatever the matrix: with a list of segments, with the error "matrix not square" or with
  a panic, never the value \<open>None\<close> of a loop that runs forever. Under the same hypothesis
  an iteration of the traceback at a cell \<open>(i, j)\<close> inside the two sequences either panics
  or leaves \<open>i + j\<close> strictly smaller: the branch that does not advance is not taken.
\<close>

theorem conditional_termination:
  assumes rec: "\<forall>x \<in> set rSeq \<union> set qSeq. 0 \<le> LetterIndex alpha x"
  shows "(\<exists>res. alignLetters a rSeq qSeq alpha = Some res) \<and>
         (\<forall>s table. 0 < st_i s \<and> st_i s \<le> length rSeq \<and> 0 < st_j s \<and> st_j s \<le> length qSeq \<longrightarrow>
            (case tbStep a (LetterIndex alpha) rSeq qSeq gap c table s of
               Inl e \<Rightarrow> True
             | Inr s' \<Rightarrow> st_i s' + st_j s' < st_i s + st_j s))"
proof -
  from rec have r: "\<forall>k < length rSeq. 0 \<le> LetterIndex alpha (rSeq ! k)"
    and q: "\<forall>k < length qSeq. 0 \<le> LetterIndex alpha (qSeq ! k)"
    by simp_all
  have init: "st_i (initState (length rSeq + 1) (length qSeq + 1)) \<le> length rSeq"
    "st_j (initState (length rSeq + 1) (length qSeq + 1)) \<le> length qSeq"
    by (simp_all add: initState_def)
  from traceback_terminates [OF r q init]
  have tb: "\<exists>res. traceback a (LetterIndex alpha) rSeq qSeq gap c table
                (initState (length rSeq + 1) (length qSeq + 1)) = Some res" for gap c table .
  have 1: "\<exists>res. alignLetters a rSeq qSeq alpha = Some res"
  proof (cases "\<exists>row \<in> set a. int (length row) \<noteq> int (length a) - 1 + 1")
    case True
    then show ?thesis unfolding alignLetters_def Let_def by (simp only: if_True) simp
  next
    case False
    show ?thesis
    proof (cases "buildTable a (LetterIndex alpha) rSeq qSeq")
      case (Inl e)
      with False show ?thesis unfolding alignLetters_def Let_def by (simp only: if_False) simp
    next
      case (Inr table)
      from tb [of "int (length a) - 1" "length qSeq + 1" table] obtain res where
        "traceback a (LetterIndex alpha) rSeq qSeq (int (length a) - 1) (length qSeq + 1) table
                (initState (length rSeq + 1) (length qSeq + 1)) = Some res" ..
      with False Inr show ?thesis unfolding alignLetters_def Let_def
        by (simp only: if_False) (simp split: sum.splits)
    qed
  qed
  have 2: "case tbStep a (LetterIndex alpha) rSeq qSeq gap c table s of
               Inl e \<Rightarrow> True
             | Inr s' \<Rightarrow> st_i s' + st_j s' < st_i s + st_j s"
    if h: "0 < st_i s \<and> st_i s \<le> length rSeq \<and> 0 < st_j s \<and> st_j s \<le> length qSeq" for s table
  proof (cases "tbStep a (LetterIndex alpha) rSeq qSeq gap c table s")
    case (Inl e)
    then show ?thesis by simp
  next
    case (Inr s')
    from h have "st_i s - 1 < length rSeq" "st_j s - 1 < length qSeq" by linarith+
    with r q have "0 \<le> LetterIndex alpha (rSeq ! (st_i s - 1))" "0 \<le> LetterIndex alpha (qSeq ! (st_j s - 1))"
      by blast+
    with tbStep_decreases [OF Inr] h Inr show ?thesis by simp
  qed
  from 1 2 show ?thesis by blast
qed

theorem conditional_termination_witness:
  "(\<exists>res. alignLetters gapMatrix [65, 67] [65] dna = Some res) \<and>
   (case tbStep gapMatrix (LetterIndex dna) [65, 67] [65] 4 2 [0, - 1, - 1, 1, - 2, 0] (initState 3 2) of
      Inl e \<Rightarrow> True
    | Inr s' \<Rightarrow> st_i s' + st_j s' < st_i (initState 3 2) + st_j (initState 3 2))"
proof -
  have h: "\<forall>x \<in> set [65, 67] \<union> set [65]. 0 \<le> LetterIndex dna x"
    by (simp add: dna_def dnaIndex_def)
  have s: "0 < st_i (initState 3 2) \<and> st_i (initState 3 2) \<le> length [65 :: Letter, 67] \<and>
           0 < st_j (initState 3 2) \<and> st_j (initState 3 2) \<le> length [65 :: Letter]"
    by (simp add: initState_def)
  note t = conditional_termination [OF h, of gapMatrix 4 2]
  from t have a: "\<exists>res. alignLetters gapMatrix [65, 67] [65] dna = Some res" by (rule conjunct1)
  from t [THEN conjunct2, rule_format, OF s, of "[0, - 1, - 1, 1, - 2, 0]"] a
  show ?thesis by (rule_tac conjI)
qed






end
